theory Spec2Isabelle
  imports Complex_Main "HOL-Library.Log_Nat" "HOL-Library.Multiset"
begin

section \<open>The PDF-layout-to-Markdown engine of src/App.vue\<close>

text \<open>
  The engine lives in the script block of \<^verbatim>\<open>src/App.vue\<close>: \<^verbatim>\<open>getMedian\<close>,
  \<^verbatim>\<open>quantizeY\<close>, \<^verbatim>\<open>extractLinesFromPdfTextContent\<close>, \<^verbatim>\<open>looksLikeHeading\<close>,
  \<^verbatim>\<open>headingLevel\<close>, \<^verbatim>\<open>normalizeListPrefix\<close>, \<^verbatim>\<open>splitTabbedColumns\<close>,
  \<^verbatim>\<open>fallbackTabbedBlock\<close>, \<^verbatim>\<open>tabbedBlockToMarkdownTable\<close>, \<^verbatim>\<open>linesToMarkdown\<close> and
  \<^verbatim>\<open>pdfToMarkdown\<close>. Each is embedded below under its own name.

  Conventions of the embedding.
  \<^item> A TypeScript \<^verbatim>\<open>number\<close> is a value of IEEE 754 binary64: a finite value, one
    of the two infinities, or NaN. Every arithmetic operation rounds its exact result to
    the nearest binary64 value, a tie going to the even significand, and overflows to an
    infinity. The sign of a zero is not kept: the engine divides by no zero and reads no
    sign.
  \<^item> A TypeScript \<^verbatim>\<open>string\<close> is a list of UTF-16 code units, each a \<^typ>\<open>nat\<close>;
    \<open>length\<close> is then the \<^verbatim>\<open>.length\<close> of the source. ASCII literals are written
    \<open>lit ''...''\<close>.
  \<^item> A thrown \<^verbatim>\<open>Error\<close> is the left summand of a sum type.
\<close>

subsection \<open>Numbers\<close>

text \<open>
  The values of binary64. A finite value is carried as the real number it stands for; the
  values the program computes with are those \<open>is_double\<close> describes, a significand of
  53 bits times a power of two between \<open>2 powi -1074\<close> and \<open>2 powi 971\<close>.
\<close>

datatype number = Finite real | PosInf | NegInf | NaN

definition is_double :: "real \<Rightarrow> bool" where
  "is_double x \<longleftrightarrow>
     (\<exists>m e :: int. x = of_int m * 2 powi e \<and> \<bar>m\<bar> < 2 ^ 53 \<and> - 1074 \<le> e \<and> e \<le> 971)"

text \<open>The number is a value of binary64; the finite ones can be told from the others.\<close>

definition is_binary64 :: "number \<Rightarrow> bool" where
  "is_binary64 v = (case v of Finite x \<Rightarrow> is_double x | _ \<Rightarrow> True)"

text \<open>
  The exponent of the binade of a positive real, \<open>floor (log2 x)\<close>, computed on the
  integer part of \<open>x\<close> or of its inverse.
\<close>

definition floor_log2 :: "real \<Rightarrow> int" where
  "floor_log2 x = (if 1 \<le> x then bitlen \<lfloor>x\<rfloor> - 1 else - bitlen (\<lceil>1 / x\<rceil> - 1))"

text \<open>The nearest integer, a tie going to the even one.\<close>

definition round_half_even :: "real \<Rightarrow> int" where
  "round_half_even q =
     (let f = \<lfloor>q\<rfloor>
      in if q - of_int f < 1 / 2 then f
         else if q - of_int f > 1 / 2 then f + 1
         else if even f then f else f + 1)"

text \<open>
  The exponent of the spacing of binary64 around \<open>x\<close>: 52 below the exponent of the
  binade, and never below that of the subnormal numbers.
\<close>

definition ulp_exponent :: "real \<Rightarrow> int" where
  "ulp_exponent x = max (floor_log2 \<bar>x\<bar> - 52) (- 1074)"

definition overflow_bound :: real where
  "overflow_bound = 2 ^ 1024"

definition tiny :: real where
  "tiny = 2 powi (- 1074)"

text \<open>
  Rounding of an exact result to binary64 (round to nearest, ties to even): the multiple
  of the spacing nearest to \<open>x\<close>, and an infinity when that reaches \<open>2 ^ 1024\<close>.
\<close>

definition round64 :: "real \<Rightarrow> number" where
  "round64 x =
     (if x = 0 then Finite 0
      else (let e = ulp_exponent x;
                r = of_int (round_half_even (x / 2 powi e)) * 2 powi e
            in if overflow_bound \<le> r then PosInf
               else if r \<le> - overflow_bound then NegInf
               else Finite r))"

text \<open>
  A numeric literal of the source, and a length or an index converted to a number, is
  the binary64 value nearest to it.
\<close>

definition num :: "real \<Rightarrow> number" where
  "num x = round64 x"

text \<open>The operators \<^verbatim>\<open>-x\<close>, \<^verbatim>\<open>+\<close>, \<^verbatim>\<open>-\<close>, \<^verbatim>\<open>*\<close> and \<^verbatim>\<open>/\<close> on numbers.\<close>

fun fneg :: "number \<Rightarrow> number" where
  "fneg (Finite x) = Finite (- x)"
| "fneg PosInf = NegInf"
| "fneg NegInf = PosInf"
| "fneg NaN = NaN"

fun fadd :: "number \<Rightarrow> number \<Rightarrow> number" where
  "fadd (Finite x) (Finite y) = round64 (x + y)"
| "fadd NaN b = NaN"
| "fadd a NaN = NaN"
| "fadd PosInf NegInf = NaN"
| "fadd NegInf PosInf = NaN"
| "fadd PosInf b = PosInf"
| "fadd a PosInf = PosInf"
| "fadd NegInf b = NegInf"
| "fadd a NegInf = NegInf"

definition fsub :: "number \<Rightarrow> number \<Rightarrow> number" where
  "fsub a b = fadd a (fneg b)"

fun fmul :: "number \<Rightarrow> number \<Rightarrow> number" where
  "fmul (Finite x) (Finite y) = round64 (x * y)"
| "fmul NaN b = NaN"
| "fmul a NaN = NaN"
| "fmul (Finite x) b =
     (if x = 0 then NaN else if (0 < x) = (b = PosInf) then PosInf else NegInf)"
| "fmul a (Finite y) =
     (if y = 0 then NaN else if (0 < y) = (a = PosInf) then PosInf else NegInf)"
| "fmul a b = (if a = b then PosInf else NegInf)"

text \<open>
  Division. A zero divisor is taken as the positive zero; the engine divides by 2, by a
  length that is at least 1 and by \<^verbatim>\<open>Math.max(bodyFontSize, 1)\<close> only.
\<close>

fun fdiv :: "number \<Rightarrow> number \<Rightarrow> number" where
  "fdiv (Finite x) (Finite y) =
     (if y = 0 then (if x = 0 then NaN else if 0 < x then PosInf else NegInf)
      else round64 (x / y))"
| "fdiv NaN b = NaN"
| "fdiv a NaN = NaN"
| "fdiv (Finite x) b = Finite 0"
| "fdiv a (Finite y) = (if (0 \<le> y) = (a = PosInf) then PosInf else NegInf)"
| "fdiv a b = NaN"

text \<open>
  The comparisons \<^verbatim>\<open><\<close>, \<^verbatim>\<open>>\<close>, \<^verbatim>\<open><=\<close> and \<^verbatim>\<open>>=\<close>: false whenever an operand
  is NaN.
\<close>

fun js_lt :: "number \<Rightarrow> number \<Rightarrow> bool" where
  "js_lt (Finite x) (Finite y) = (x < y)"
| "js_lt NaN b = False"
| "js_lt a NaN = False"
| "js_lt a PosInf = (a \<noteq> PosInf)"
| "js_lt NegInf b = (b \<noteq> NegInf)"
| "js_lt a b = False"

definition js_gt :: "number \<Rightarrow> number \<Rightarrow> bool" where
  "js_gt a b = js_lt b a"

definition js_le :: "number \<Rightarrow> number \<Rightarrow> bool" where
  "js_le a b \<longleftrightarrow> js_lt a b \<or> (a = b \<and> a \<noteq> NaN)"

definition js_ge :: "number \<Rightarrow> number \<Rightarrow> bool" where
  "js_ge a b = js_le b a"

text \<open>\<^verbatim>\<open>Math.max\<close> of two numbers and \<^verbatim>\<open>Math.abs\<close>.\<close>

definition Math_max :: "number \<Rightarrow> number \<Rightarrow> number" where
  "Math_max a b = (if a = NaN \<or> b = NaN then NaN else if js_lt a b then b else a)"

fun Math_abs :: "number \<Rightarrow> number" where
  "Math_abs (Finite x) = Finite \<bar>x\<bar>"
| "Math_abs PosInf = PosInf"
| "Math_abs NegInf = PosInf"
| "Math_abs NaN = NaN"

text \<open>
  \<^verbatim>\<open>Math.round\<close>: the nearest integer, a tie going towards plus infinity; an infinity
  and NaN are returned as they are.
\<close>

fun Math_round :: "number \<Rightarrow> number" where
  "Math_round (Finite x) = Finite (of_int \<lfloor>x + 1 / 2\<rfloor>)"
| "Math_round v = v"

text \<open>\<^verbatim>\<open>v || d\<close> on numbers: 0 and NaN are falsy, as is a missing value.\<close>

definition js_or :: "number \<Rightarrow> number \<Rightarrow> number" where
  "js_or v d = (if v = Finite 0 \<or> v = NaN then d else v)"

text \<open>
  \<^verbatim>\<open>Array.prototype.sort\<close> with a comparator. The sort is stable, and for a comparator
  that orders the elements consistently the result is their ascending arrangement; an
  insertion sort that moves an element behind those the comparator puts before it gives
  exactly that. For a comparator that is not consistent, as with NaN among its results,
  the standard leaves the order to the implementation; the model keeps the insertion
  sort.
\<close>

fun js_insort :: "('a \<Rightarrow> 'a \<Rightarrow> number) \<Rightarrow> 'a \<Rightarrow> 'a list \<Rightarrow> 'a list" where
  "js_insort compare x [] = [x]"
| "js_insort compare x (y # ys) =
     (if js_gt (compare x y) (Finite 0) then y # js_insort compare x ys else x # y # ys)"

definition js_sort :: "('a \<Rightarrow> 'a \<Rightarrow> number) \<Rightarrow> 'a list \<Rightarrow> 'a list" where
  "js_sort compare xs = foldr (js_insort compare) xs []"

text \<open>The sort of \<^verbatim>\<open>getMedian\<close>, with the comparator \<^verbatim>\<open>(a, b) => a - b\<close>.\<close>

definition sort_ascending :: "number list \<Rightarrow> number list" where
  "sort_ascending values = js_sort (\<lambda>a b. fsub a b) values"

text \<open>
  \<^verbatim>\<open>getMedian\<close> (App.vue 180-188). The reads \<^verbatim>\<open>sorted[middle - 1]\<close> and
  \<^verbatim>\<open>sorted[middle]\<close> are in range whenever they are evaluated, the empty array having
  returned before.
\<close>

definition getMedian :: "number list \<Rightarrow> number" where
  "getMedian values =
     (if length values = 0 then num 0
      else let sorted = sort_ascending values;
               middle = length sorted div 2
           in if length sorted mod 2 = 0
              then fdiv (fadd (sorted ! (middle - 1)) (sorted ! middle)) (num 2)
              else sorted ! middle)"

text \<open>\<^verbatim>\<open>quantizeY\<close> (App.vue 190-192).\<close>

definition quantizeY :: "number \<Rightarrow> number" where
  "quantizeY v = fmul (Math_round (fdiv v (num 2))) (num 2)"

text \<open>
  An ascending arrangement of numbers, and the arrangement with the same elements that
  the specification means by the sorted input.
\<close>

definition ascending :: "number list \<Rightarrow> bool" where
  "ascending s = sorted_wrt js_le s"

subsection \<open>Arrays in a store\<close>

text \<open>
  Arrays of the source are objects: a callee that sorts the array it was given changes
  the caller's array. To state what \<^verbatim>\<open>getMedian\<close> does to its argument, arrays of
  numbers are kept in a store, an address being an index into it. The spread
  \<^verbatim>\<open>[...values]\<close> allocates a new array holding the same elements, and
  \<^verbatim>\<open>Array.prototype.sort\<close> overwrites the array it is called on.
\<close>

type_synonym store = "number list list"

definition array_spread :: "store \<Rightarrow> nat \<Rightarrow> nat \<times> store" where
  "array_spread s a = (length s, s @ [s ! a])"

definition array_sort :: "store \<Rightarrow> nat \<Rightarrow> store" where
  "array_sort s a = s[a := sort_ascending (s ! a)]"

text \<open>\<^verbatim>\<open>getMedian\<close> over the store: the result and the store it leaves.\<close>

definition getMedian_store :: "store \<Rightarrow> nat \<Rightarrow> number \<times> store" where
  "getMedian_store s values =
     (if length (s ! values) = 0 then (num 0, s)
      else let (copy, s1) = array_spread s values;
               s2 = array_sort s1 copy;
               sorted = copy;
               middle = length (s2 ! sorted) div 2
           in if length (s2 ! sorted) mod 2 = 0
              then (fdiv (fadd ((s2 ! sorted) ! (middle - 1)) ((s2 ! sorted) ! middle)) (num 2), s2)
              else ((s2 ! sorted) ! middle, s2))"

subsection \<open>Strings\<close>

type_synonym jsstring = "nat list"

definition lit :: "string \<Rightarrow> jsstring" where
  "lit s = map of_char s"

text \<open>
  The class \<^verbatim>\<open>\s\<close> of a regular expression; \<^verbatim>\<open>String.prototype.trim\<close> strips
  the same code units (white space and line terminators).
\<close>

definition isSpace :: "nat \<Rightarrow> bool" where
  "isSpace c \<longleftrightarrow>
     c = 0x09 \<or> c = 0x0A \<or> c = 0x0B \<or> c = 0x0C \<or> c = 0x0D \<or> c = 0x20 \<or>
     c = 0xA0 \<or> c = 0x1680 \<or> (0x2000 \<le> c \<and> c \<le> 0x200A) \<or> c = 0x2028 \<or>
     c = 0x2029 \<or> c = 0x202F \<or> c = 0x205F \<or> c = 0x3000 \<or> c = 0xFEFF"

text \<open>The class \<^verbatim>\<open>\d\<close>: the ASCII digits.\<close>

definition isDigit :: "nat \<Rightarrow> bool" where
  "isDigit c \<longleftrightarrow> 0x30 \<le> c \<and> c \<le> 0x39"

text \<open>The class \<^verbatim>\<open>[ \t]\<close>.\<close>

definition isBlank :: "nat \<Rightarrow> bool" where
  "isBlank c \<longleftrightarrow> c = 0x20 \<or> c = 0x09"

definition trim :: "jsstring \<Rightarrow> jsstring" where
  "trim s = rev (dropWhile isSpace (rev (dropWhile isSpace s)))"

text \<open>A string that \<^verbatim>\<open>trim\<close> leaves as it is: no white space at either end.\<close>

definition trimmed :: "jsstring \<Rightarrow> bool" where
  "trimmed t \<longleftrightarrow> t = [] \<or> (\<not> isSpace (hd t) \<and> \<not> isSpace (last t))"

text \<open>
  \<^verbatim>\<open>s.replace(/C{n,}/g, r)\<close> for a character class \<open>C\<close> and a replacement \<open>r\<close>
  without dollar patterns: the match at a position is the whole run of \<open>C\<close> that starts
  there, provided it has \<open>n\<close> code units or more; a shorter run is kept.
  \<^verbatim>\<open>/C+/g\<close> is the case \<open>n = 1\<close>.
\<close>

function replace_runs :: "nat \<Rightarrow> (nat \<Rightarrow> bool) \<Rightarrow> jsstring \<Rightarrow> jsstring \<Rightarrow> jsstring" where
  "replace_runs n p r [] = []"
| "replace_runs n p r (c # cs) =
     (if p c
      then (let run = c # takeWhile p cs
            in (if n \<le> length run then r else run) @ replace_runs n p r (dropWhile p cs))
      else c # replace_runs n p r cs)"
  by pat_completeness auto
termination
  by (relation "measure (\<lambda>(n, p, r, s). length s)")
     (auto simp: le_imp_less_Suc length_dropWhile_le)

text \<open>\<^verbatim>\<open>s.replace(/[ \t]+$/g, '')\<close>: the blanks at the end of the string go.\<close>

definition strip_trailing_blanks :: "jsstring \<Rightarrow> jsstring" where
  "strip_trailing_blanks s = rev (dropWhile isBlank (rev s))"

text \<open>
  \<^verbatim>\<open>s.replace(/[ \t]+\n/g, '\n')\<close>: a run of blanks goes when a newline follows it,
  and stays otherwise.
\<close>

function strip_blanks_before_newline :: "jsstring \<Rightarrow> jsstring" where
  "strip_blanks_before_newline [] = []"
| "strip_blanks_before_newline (c # cs) =
     (if isBlank c
      then (let run = c # takeWhile isBlank cs;
                rest = dropWhile isBlank cs
            in (case rest of
                  [] \<Rightarrow> run
                | d # ds \<Rightarrow>
                    (if d = 0x0A then [] else run) @ strip_blanks_before_newline rest))
      else c # strip_blanks_before_newline cs)"
  by pat_completeness auto
termination
  by (relation "measure length") (auto simp: le_imp_less_Suc length_dropWhile_le)

text \<open>\<^verbatim>\<open>s.split(/\s+/)\<close>: the pieces between the runs of white space.\<close>

function split_whitespace :: "jsstring \<Rightarrow> jsstring list" where
  "split_whitespace s =
     (let piece = takeWhile (\<lambda>c. \<not> isSpace c) s;
          rest = dropWhile (\<lambda>c. \<not> isSpace c) s
      in (case rest of
            [] \<Rightarrow> [piece]
          | d # ds \<Rightarrow> piece # split_whitespace (dropWhile isSpace ds)))"
  by pat_completeness auto
termination
proof (relation "measure length", goal_cases)
  case 1
  show ?case by simp
next
  case (2 s piece rest d ds)
  have "length (dropWhile isSpace ds) \<le> length ds"
    by (rule length_dropWhile_le)
  moreover have "length (d # ds) \<le> length s"
    using 2 length_dropWhile_le [of "\<lambda>c. \<not> isSpace c" s] by simp
  ultimately show ?case by simp
qed

declare split_whitespace.simps [simp del]

text \<open>\<^verbatim>\<open>s.split(d)\<close> for a separator \<open>d\<close> of one code unit.\<close>

function split_char :: "nat \<Rightarrow> jsstring \<Rightarrow> jsstring list" where
  "split_char d s =
     (let piece = takeWhile (\<lambda>c. c \<noteq> d) s;
          rest = dropWhile (\<lambda>c. c \<noteq> d) s
      in (case rest of
            [] \<Rightarrow> [piece]
          | e # es \<Rightarrow> piece # split_char d es))"
  by pat_completeness auto
termination
proof (relation "measure (\<lambda>(d, s). length s)", goal_cases)
  case 1
  show ?case by simp
next
  case (2 d s piece rest e es)
  have "length (e # es) \<le> length s"
    using 2 length_dropWhile_le [of "\<lambda>c. c \<noteq> d" s] by simp
  then show ?case by simp
qed

declare split_char.simps [simp del]

text \<open>\<^verbatim>\<open>parts.join(sep)\<close>.\<close>

fun join :: "jsstring \<Rightarrow> jsstring list \<Rightarrow> jsstring" where
  "join sep [] = []"
| "join sep [p] = p"
| "join sep (p # q # ps) = p @ sep @ join sep (q # ps)"

subsection \<open>Segments and lines\<close>

text \<open>
  The types \<^verbatim>\<open>PdfTextSegment\<close> and \<^verbatim>\<open>ExtractedLine\<close> (App.vue 15-27). The fields
  \<^verbatim>\<open>text\<close>, \<^verbatim>\<open>x\<close>, \<^verbatim>\<open>width\<close> and \<^verbatim>\<open>fontSize\<close> carry a prefix here, the two
  records sharing names.
\<close>

record PdfTextSegment =
  seg_text :: jsstring
  seg_x :: number
  seg_width :: number
  seg_fontSize :: number

record ExtractedLine =
  line_text :: jsstring
  hasTabs :: bool
  line_fontSize :: number
  breakAfter :: bool

subsection \<open>Headings\<close>

text \<open>The tests \<^verbatim>\<open>/^[-*]\s+/\<close> and \<^verbatim>\<open>/^\d+[\.\)]\s+/\<close>.\<close>

definition startsWithBullet :: "jsstring \<Rightarrow> bool" where
  "startsWithBullet s =
     (case s of
        c # d # ds \<Rightarrow> (c = 0x2D \<or> c = 0x2A) \<and> isSpace d
      | _ \<Rightarrow> False)"

definition startsWithNumber :: "jsstring \<Rightarrow> bool" where
  "startsWithNumber s =
     (takeWhile isDigit s \<noteq> [] \<and>
      (case dropWhile isDigit s of
         c # d # ds \<Rightarrow> (c = 0x2E \<or> c = 0x29) \<and> isSpace d
       | _ \<Rightarrow> False))"

text \<open>\<^verbatim>\<open>looksLikeHeading\<close> (App.vue 261-274).\<close>

definition looksLikeHeading :: "jsstring \<Rightarrow> number \<Rightarrow> number \<Rightarrow> bool" where
  "looksLikeHeading text fontSize bodyFontSize =
     (let plain = trim text
      in if plain = [] then False
         else if length plain > 90 then False
         else if startsWithBullet plain then False
         else if startsWithNumber plain then False
         else if 0x09 \<in> set plain then False
         else (let ratio = fdiv fontSize (Math_max bodyFontSize (num 1))
               in if js_lt ratio (num 1.28) then False
                  else (let wordCount = length (split_whitespace plain)
                        in wordCount \<le> 14)))"

text \<open>\<^verbatim>\<open>headingLevel\<close> (App.vue 276-281).\<close>

definition headingLevel :: "number \<Rightarrow> number \<Rightarrow> nat" where
  "headingLevel fontSize bodyFontSize =
     (let ratio = fdiv fontSize (Math_max bodyFontSize (num 1))
      in if js_ge ratio (num 1.95) then 1
         else if js_ge ratio (num 1.65) then 2
         else 3)"

text \<open>
  The words of the specification for the heading test, each on its own. A bullet marker
  is \<^verbatim>\<open>"- "\<close> or \<^verbatim>\<open>"* "\<close>; a numbered-list marker is a run of digits, a full stop or
  a closing parenthesis, and a space; the words of a text are its runs of code units
  other than white space.
\<close>

definition spec_bulletMarker :: "jsstring \<Rightarrow> bool" where
  "spec_bulletMarker s \<longleftrightarrow> (\<exists>rest. s = lit ''- '' @ rest \<or> s = lit ''* '' @ rest)"

definition spec_numberMarker :: "jsstring \<Rightarrow> bool" where
  "spec_numberMarker s \<longleftrightarrow>
     (\<exists>digits rest. digits \<noteq> [] \<and> list_all isDigit digits \<and>
        (s = digits @ lit ''. '' @ rest \<or> s = digits @ lit '') '' @ rest))"

fun spec_words :: "bool \<Rightarrow> jsstring \<Rightarrow> nat" where
  "spec_words inWord [] = 0"
| "spec_words inWord (c # cs) =
     (if isSpace c then spec_words False cs
      else (if inWord then 0 else 1) + spec_words True cs)"

definition spec_wordCount :: "jsstring \<Rightarrow> nat" where
  "spec_wordCount s = spec_words False s"

text \<open>
  The heading test and the heading level on the plain quotient \<open>fontSize / bodyFontSize\<close>
  of the specification, the tests on the text being those of the code: the text has at
  most 90 characters, starts with no bullet and no numbered-list marker, holds no tab, the
  quotient is at least 1.28 and there are at most 14 words.
\<close>

definition spec_looksLikeHeading :: "jsstring \<Rightarrow> number \<Rightarrow> number \<Rightarrow> bool" where
  "spec_looksLikeHeading text fontSize bodyFontSize \<longleftrightarrow>
     length (trim text) \<le> 90 \<and>
     \<not> startsWithBullet (trim text) \<and>
     \<not> startsWithNumber (trim text) \<and>
     0x09 \<notin> set (trim text) \<and>
     js_ge (fdiv fontSize bodyFontSize) (num 1.28) \<and>
     length (split_whitespace (trim text)) \<le> 14"

definition spec_headingLevel :: "number \<Rightarrow> number \<Rightarrow> nat" where
  "spec_headingLevel fontSize bodyFontSize =
     (if js_ge (fdiv fontSize bodyFontSize) (num 1.95) then 1
      else if js_ge (fdiv fontSize bodyFontSize) (num 1.65) then 2
      else 3)"

text \<open>
  The text of a segment as the normalisation of a text run leaves it: not empty, no white
  space at either end, and no white space other than the space. The text of a line as the
  assembler writes it: as that of a segment, with the tab as further white space.
\<close>

definition plain_spaces :: "jsstring \<Rightarrow> bool" where
  "plain_spaces t \<longleftrightarrow> list_all (\<lambda>c. isSpace c \<longrightarrow> c = 0x20 \<or> c = 0x09) t"

definition run_shaped :: "jsstring \<Rightarrow> bool" where
  "run_shaped t \<longleftrightarrow> t \<noteq> [] \<and> trimmed t \<and> list_all (\<lambda>c. isSpace c \<longrightarrow> c = 0x20) t"

definition line_shaped :: "jsstring \<Rightarrow> bool" where
  "line_shaped t \<longleftrightarrow> t \<noteq> [] \<and> trimmed t \<and> plain_spaces t"

subsection \<open>Rows to lines\<close>

text \<open>
  The variables \<^verbatim>\<open>text\<close>, \<^verbatim>\<open>hasTabs\<close>, \<^verbatim>\<open>previousEnd\<close> and
  \<^verbatim>\<open>previousCharWidth\<close> that the callback of \<^verbatim>\<open>row.segments.forEach\<close> updates
  (App.vue 220-240).
\<close>

record assembly =
  asm_text :: jsstring
  asm_hasTabs :: bool
  previousEnd :: number
  previousCharWidth :: number

definition assembly_init :: assembly where
  "assembly_init =
     \<lparr>asm_text = [], asm_hasTabs = False, previousEnd = num 0, previousCharWidth = num 5\<rparr>"

text \<open>One call of the callback, on \<^verbatim>\<open>(segment, segmentIndex)\<close>.\<close>

definition assemble_segment :: "assembly \<Rightarrow> PdfTextSegment \<Rightarrow> nat \<Rightarrow> assembly" where
  "assemble_segment st segment segmentIndex =
     (let st1 =
        (if segmentIndex > 0
         then (let gap = fsub (seg_x segment) (previousEnd st);
                   tabThreshold = Math_max (num 24) (fmul (previousCharWidth st) (num 6));
                   spaceThreshold = Math_max (num 6) (fmul (previousCharWidth st) (num 1.75))
               in if js_gt gap tabThreshold
                  then st\<lparr>asm_text := asm_text st @ [0x09], asm_hasTabs := True\<rparr>
                  else if js_gt gap spaceThreshold
                  then st\<lparr>asm_text := asm_text st @ [0x20]\<rparr>
                  else st)
         else st)
      in st1\<lparr>asm_text := asm_text st1 @ seg_text segment,
             previousEnd := fadd (seg_x segment) (seg_width segment),
             previousCharWidth :=
               fdiv (seg_width segment) (num (real (max (length (seg_text segment)) 1)))\<rparr>)"

fun forEach_segment :: "assembly \<Rightarrow> nat \<Rightarrow> PdfTextSegment list \<Rightarrow> assembly" where
  "forEach_segment st segmentIndex [] = st"
| "forEach_segment st segmentIndex (segment # segments) =
     forEach_segment (assemble_segment st segment segmentIndex) (Suc segmentIndex) segments"

definition assemble_row :: "PdfTextSegment list \<Rightarrow> assembly" where
  "assemble_row segments = forEach_segment assembly_init 0 segments"

text \<open>
  The separator between two consecutive segments as the specification words it: with
  \<open>gap = currentX - previousEnd\<close>, a tab when \<open>gap > max(24, previousCharWidth * 6)\<close>,
  else a space when \<open>gap > max(6, previousCharWidth * 1.75)\<close>, else nothing; the
  arithmetic is that of binary64.
\<close>

definition spec_separator :: "number \<Rightarrow> number \<Rightarrow> jsstring" where
  "spec_separator gap charWidth =
     (if js_gt gap (Math_max (num 24) (fmul charWidth (num 6))) then [0x09]
      else if js_gt gap (Math_max (num 6) (fmul charWidth (num 1.75))) then [0x20]
      else [])"

text \<open>
  The gap between a segment and the one to its left, and the character width of the
  latter: its width over the length of its text, a length of 0 counting as 1.
\<close>

definition spec_gap :: "PdfTextSegment \<Rightarrow> PdfTextSegment \<Rightarrow> number" where
  "spec_gap prev cur = fsub (seg_x cur) (fadd (seg_x prev) (seg_width prev))"

definition spec_charWidth :: "PdfTextSegment \<Rightarrow> number" where
  "spec_charWidth prev = fdiv (seg_width prev) (num (real (max (length (seg_text prev)) 1)))"

text \<open>
  The text that follows a segment \<open>prev\<close> in its row, and whether a tab stands in it:
  before each later segment the separator decided from the gap to the segment on its left
  and from the character width of that segment.
\<close>

fun spec_row_tail :: "PdfTextSegment \<Rightarrow> PdfTextSegment list \<Rightarrow> jsstring \<times> bool" where
  "spec_row_tail prev [] = ([], False)"
| "spec_row_tail prev (cur # rest) =
     (let sep = spec_separator (spec_gap prev cur) (spec_charWidth prev)
      in (sep @ seg_text cur @ fst (spec_row_tail cur rest),
          sep = [0x09] \<or> snd (spec_row_tail cur rest)))"

subsection \<open>Text runs to rows\<close>

text \<open>
  A raw item of \<^verbatim>\<open>textContent.items\<close>, as the pdf.js extraction yields it: the
  fields \<^verbatim>\<open>str\<close>, \<^verbatim>\<open>transform\<close>, \<^verbatim>\<open>width\<close> and \<^verbatim>\<open>height\<close>. The source reads
  each through \<^verbatim>\<open>||\<close>, which treats a missing field like a falsy one: an item with no
  \<^verbatim>\<open>str\<close> is one with the empty string, with no \<^verbatim>\<open>width\<close> or \<^verbatim>\<open>height\<close> one with
  0, and a \<^verbatim>\<open>transform\<close> that is no array is the empty array.
\<close>

record RawItem =
  str :: jsstring
  transform :: "number list"
  width :: number
  height :: number

text \<open>
  \<^verbatim>\<open>transform[k]\<close> as the operand of \<^verbatim>\<open>||\<close>: a read beyond the array is
  \<^verbatim>\<open>undefined\<close>, falsy as 0 is.
\<close>

definition transform_at :: "RawItem \<Rightarrow> nat \<Rightarrow> number" where
  "transform_at rawItem k =
     (if k < length (transform rawItem) then transform rawItem ! k else num 0)"

text \<open>The normalised text of an item (App.vue 198).\<close>

definition item_text :: "RawItem \<Rightarrow> jsstring" where
  "item_text rawItem = trim (replace_runs 1 isSpace [0x20] (str rawItem))"

text \<open>The coordinates \<^verbatim>\<open>x\<close> and \<^verbatim>\<open>y\<close> (App.vue 202-203).\<close>

definition item_x :: "RawItem \<Rightarrow> number" where
  "item_x rawItem = js_or (transform_at rawItem 4) (num 0)"

definition item_y :: "RawItem \<Rightarrow> number" where
  "item_y rawItem = js_or (transform_at rawItem 5) (num 0)"

text \<open>The font size (App.vue 205).\<close>

definition item_fontSize :: "RawItem \<Rightarrow> number" where
  "item_fontSize rawItem =
     Math_abs (js_or (transform_at rawItem 0)
                (js_or (transform_at rawItem 3)
                   (js_or (height rawItem) (num 12))))"

text \<open>The segment pushed for an item whose text is not empty (App.vue 201-209).\<close>

definition item_segment :: "RawItem \<Rightarrow> PdfTextSegment" where
  "item_segment rawItem =
     (let text = item_text rawItem
      in \<lparr>seg_text = text,
          seg_x = item_x rawItem,
          seg_width = js_or (width rawItem)
                        (Math_max (num 4) (fmul (num (real (length text))) (num 4))),
          seg_fontSize = item_fontSize rawItem\<rparr>)"

text \<open>
  \<^verbatim>\<open>rowMap\<close> is a \<^verbatim>\<open>Map\<close>, whose entries keep the order in which their keys were
  first set: an association list. \<^verbatim>\<open>get(yKey) || []\<close>, \<^verbatim>\<open>push\<close> and \<^verbatim>\<open>set\<close>
  together append the segment to the entry of the key, or add the entry at the end.
\<close>

type_synonym rowMap = "(number \<times> PdfTextSegment list) list"

definition rowMap_push :: "rowMap \<Rightarrow> number \<Rightarrow> PdfTextSegment \<Rightarrow> rowMap" where
  "rowMap_push m yKey segment =
     (if yKey \<in> set (map fst m)
      then map (\<lambda>(y, segments). if y = yKey then (y, segments @ [segment]) else (y, segments)) m
      else m @ [(yKey, [segment])])"

fun collect_rows :: "RawItem list \<Rightarrow> rowMap \<Rightarrow> rowMap" where
  "collect_rows [] m = m"
| "collect_rows (rawItem # items) m =
     (if item_text rawItem = [] then collect_rows items m
      else collect_rows items
             (rowMap_push m (quantizeY (item_y rawItem)) (item_segment rawItem)))"

text \<open>
  The rows (App.vue 213-215): the segments of each sorted with the comparator
  \<^verbatim>\<open>(a, b) => a.x - b.x\<close>, the rows with \<^verbatim>\<open>(a, b) => b.y - a.y\<close>.
\<close>

definition sorted_rows :: "rowMap \<Rightarrow> rowMap" where
  "sorted_rows m =
     js_sort (\<lambda>a b. fsub (fst b) (fst a))
       (map (\<lambda>(y, segments). (y, js_sort (\<lambda>a b. fsub (seg_x a) (seg_x b)) segments)) m)"

text \<open>The text of a row after assembly (App.vue 242).\<close>

definition row_text :: "PdfTextSegment list \<Rightarrow> jsstring" where
  "row_text segments =
     replace_runs 2 (\<lambda>c. c = 0x20) [0x20]
       (strip_trailing_blanks (asm_text (assemble_row segments)))"

text \<open>The loop over the rows (App.vue 217-256); \<^verbatim>\<open>rows[i + 1]\<close> is the head of the rest.\<close>

fun rows_to_lines :: "rowMap \<Rightarrow> ExtractedLine list" where
  "rows_to_lines [] = []"
| "rows_to_lines ((y, segments) # rows) =
     (let st = assemble_row segments;
          normalized = replace_runs 2 (\<lambda>c. c = 0x20) [0x20] (strip_trailing_blanks (asm_text st))
      in if normalized = [] then rows_to_lines rows
         else (let avgFontSize =
                     fdiv (fold (\<lambda>segment sum. fadd sum (seg_fontSize segment)) segments (num 0))
                       (num (real (length segments)));
                   rowGap = (case rows of
                               [] \<Rightarrow> num 0
                             | (nextY, nextSegments) # later \<Rightarrow> Math_abs (fsub y nextY));
                   breakAfter = js_gt rowGap (fmul avgFontSize (num 1.7))
               in \<lparr>line_text = normalized, hasTabs = asm_hasTabs st,
                   line_fontSize = avgFontSize, breakAfter = breakAfter\<rparr>
                  # rows_to_lines rows))"

text \<open>\<^verbatim>\<open>extractLinesFromPdfTextContent\<close> (App.vue 194-259).\<close>

definition extractLinesFromPdfTextContent :: "RawItem list \<Rightarrow> ExtractedLine list" where
  "extractLinesFromPdfTextContent items = rows_to_lines (sorted_rows (collect_rows items []))"


subsection \<open>List markers and tables\<close>

text \<open>
  The bullet glyphs of \<^verbatim>\<open>normalizeListPrefix\<close>: U+2022, U+25E6, U+25AA, U+25B8,
  U+25BA and U+2023, each one code unit.
\<close>

definition isBulletGlyph :: "nat \<Rightarrow> bool" where
  "isBulletGlyph c \<longleftrightarrow>
     c = 0x2022 \<or> c = 0x25E6 \<or> c = 0x25AA \<or> c = 0x25B8 \<or> c = 0x25BA \<or> c = 0x2023"

text \<open>
  \<^verbatim>\<open>normalizeListPrefix\<close> (App.vue 283-287): a leading bullet glyph and the white
  space after it become \<^verbatim>\<open>"- "\<close>; then a leading \<^verbatim>\<open>(digits)\<close> followed by white
  space becomes the digits, a full stop and a space.
\<close>

definition replace_bullet_glyph :: "jsstring \<Rightarrow> jsstring" where
  "replace_bullet_glyph s =
     (case s of
        [] \<Rightarrow> []
      | c # cs \<Rightarrow> if isBulletGlyph c then lit ''- '' @ dropWhile isSpace cs else s)"

definition replace_parenthesised_number :: "jsstring \<Rightarrow> jsstring" where
  "replace_parenthesised_number s =
     (case s of
        [] \<Rightarrow> []
      | c # cs \<Rightarrow>
          if c = 0x28 \<and> takeWhile isDigit cs \<noteq> []
          then (case dropWhile isDigit cs of
                  d # e # es \<Rightarrow>
                    if d = 0x29 \<and> isSpace e
                    then takeWhile isDigit cs @ lit ''. '' @ dropWhile isSpace es
                    else s
                | _ \<Rightarrow> s)
          else s)"

definition normalizeListPrefix :: "jsstring \<Rightarrow> jsstring" where
  "normalizeListPrefix text = replace_parenthesised_number (replace_bullet_glyph text)"

text \<open>\<^verbatim>\<open>splitTabbedColumns\<close> (App.vue 289-291).\<close>

definition splitTabbedColumns :: "jsstring \<Rightarrow> jsstring list" where
  "splitTabbedColumns text = map trim (split_char 0x09 text)"

text \<open>\<^verbatim>\<open>fallbackTabbedBlock\<close> (App.vue 293-295).\<close>

definition fallbackTabbedBlock :: "ExtractedLine list \<Rightarrow> jsstring list" where
  "fallbackTabbedBlock block =
     map (\<lambda>line. normalizeListPrefix
            (trim (replace_runs 2 (\<lambda>c. c = 0x20) [0x20]
               (replace_runs 1 (\<lambda>c. c = 0x09) [0x20] (line_text line))))) block"

text \<open>\<^verbatim>\<open>cell.replace(/\|/g, '\\|')\<close>: a backslash before every vertical bar.\<close>

fun escape_pipes :: "jsstring \<Rightarrow> jsstring" where
  "escape_pipes [] = []"
| "escape_pipes (c # cs) =
     (if c = 0x7C then 0x5C # 0x7C # escape_pipes cs else c # escape_pipes cs)"

text \<open>The template \<^verbatim>\<open>`| ${row.join(' | ')} |`\<close>.\<close>

definition pipe_row :: "jsstring list \<Rightarrow> jsstring" where
  "pipe_row row = lit ''| '' @ join (lit '' | '') row @ lit '' |''"

text \<open>
  \<^verbatim>\<open>tabbedBlockToMarkdownTable\<close> (App.vue 297-318). \<^verbatim>\<open>Math.min\<close> and
  \<^verbatim>\<open>Math.max\<close> of no arguments are the infinities; the source computes them first and
  tests \<^verbatim>\<open>rows.length < 2\<close> before it looks at them, so the model takes the minimum and
  the maximum only of a block with two rows or more. The counts are integers, the
  difference \<^verbatim>\<open>maxCols - minCols\<close> being a subtraction of numbers.
\<close>

definition tabbedBlockToMarkdownTable :: "ExtractedLine list \<Rightarrow> jsstring list" where
  "tabbedBlockToMarkdownTable block =
     (let rows = map (\<lambda>line. splitTabbedColumns (line_text line)) block
      in if length rows < 2 then fallbackTabbedBlock block
         else (let minCols = int (Min (set (map length rows)));
                   maxCols = int (Max (set (map length rows)))
               in if maxCols < 2 \<or> maxCols - minCols > 1 then fallbackTabbedBlock block
                  else (let colCount = nat maxCols;
                            paddedRows =
                              map (\<lambda>row.
                                     (let normalized = map (\<lambda>cell. trim (escape_pipes cell)) row
                                      in take colCount
                                           (normalized @ replicate (colCount - length normalized) [])))
                                rows;
                            header = pipe_row (paddedRows ! 0);
                            divider = pipe_row (replicate colCount (lit ''---''));
                            body = map pipe_row (drop 1 paddedRows)
                        in header # divider # body)))"

text \<open>
  The acceptance test and the table as the specification words them: the cells of a line
  are the trimmed pieces between its tabs; a block is accepted when it has two rows or
  more, \<open>maxCols\<close> is at least 2 and \<open>maxCols - minCols\<close> at most 1; an accepted block
  gives the first row, a row of \<open>maxCols\<close> cells \<^verbatim>\<open>---\<close>, then the other rows, each cell
  with its bars escaped and each row padded with empty cells.
\<close>

definition spec_cells :: "ExtractedLine \<Rightarrow> jsstring list" where
  "spec_cells line = map trim (split_char 0x09 (line_text line))"

definition spec_cellCounts :: "ExtractedLine list \<Rightarrow> nat list" where
  "spec_cellCounts block = map (\<lambda>line. length (spec_cells line)) block"

definition spec_minCols :: "ExtractedLine list \<Rightarrow> nat" where
  "spec_minCols block = Min (set (spec_cellCounts block))"

definition spec_maxCols :: "ExtractedLine list \<Rightarrow> nat" where
  "spec_maxCols block = Max (set (spec_cellCounts block))"

definition spec_accepted :: "ExtractedLine list \<Rightarrow> bool" where
  "spec_accepted block \<longleftrightarrow>
     length block \<ge> 2 \<and> spec_maxCols block \<ge> 2 \<and> spec_maxCols block - spec_minCols block \<le> 1"

definition spec_padded_cells :: "nat \<Rightarrow> ExtractedLine \<Rightarrow> jsstring list" where
  "spec_padded_cells cols line =
     map escape_pipes (spec_cells line) @ replicate (cols - length (spec_cells line)) []"

definition spec_table :: "ExtractedLine list \<Rightarrow> jsstring list" where
  "spec_table block =
     pipe_row (spec_padded_cells (spec_maxCols block) (hd block))
     # pipe_row (replicate (spec_maxCols block) (lit ''---''))
     # map (\<lambda>line. pipe_row (spec_padded_cells (spec_maxCols block) line)) (tl block)"

text \<open>
  The flattening of a rejected line as the specification words it, in one pass over the
  text: a tab is replaced by a space, and of several spaces in a row only the first is
  kept. The flag tells that the code unit before was such a space.
\<close>

fun spec_flat :: "bool \<Rightarrow> jsstring \<Rightarrow> jsstring" where
  "spec_flat afterSpace [] = []"
| "spec_flat afterSpace (c # cs) =
     (if c = 0x09 \<or> c = 0x20
      then (if afterSpace then spec_flat True cs else 0x20 # spec_flat True cs)
      else c # spec_flat False cs)"

definition spec_flattened :: "ExtractedLine \<Rightarrow> jsstring" where
  "spec_flattened line = spec_flat False (line_text line)"

text \<open>
  The list-marker normalization as the specification words it: a leading bullet glyph
  with the white space after it becomes \<^verbatim>\<open>"- "\<close>, a leading \<^verbatim>\<open>(n)\<close> with the white
  space after it becomes \<^verbatim>\<open>"n. "\<close>, and any other text stays.
\<close>

definition spec_bulleted :: "jsstring \<Rightarrow> bool" where
  "spec_bulleted s \<longleftrightarrow> (\<exists>glyph rest. s = glyph # rest \<and> isBulletGlyph glyph)"

definition spec_parenthesised :: "jsstring \<Rightarrow> bool" where
  "spec_parenthesised s \<longleftrightarrow>
     (\<exists>digits space rest. s = [0x28] @ digits @ [0x29, space] @ rest \<and>
        digits \<noteq> [] \<and> list_all isDigit digits \<and> isSpace space)"


text \<open>Every vertical bar of a string has a backslash right before it.\<close>

definition pipes_escaped :: "jsstring \<Rightarrow> bool" where
  "pipes_escaped s \<longleftrightarrow>
     list_all (\<lambda>i. s ! i = 0x7C \<longrightarrow> 0 < i \<and> s ! (i - 1) = 0x5C) [0..<length s]"

subsection \<open>Lines to Markdown\<close>

text \<open>
  The loop of \<^verbatim>\<open>linesToMarkdown\<close> (App.vue 323-352), giving the array \<^verbatim>\<open>out\<close>. The
  inner \<^verbatim>\<open>while\<close> takes the tab-bearing lines that follow a tab-bearing line into its
  block and the loop goes on after them.
\<close>

function render_lines :: "ExtractedLine list \<Rightarrow> number \<Rightarrow> jsstring list" where
  "render_lines [] bodyFontSize = []"
| "render_lines (line # lines) bodyFontSize =
     (if hasTabs line
      then (let block = line # takeWhile hasTabs lines
            in tabbedBlockToMarkdownTable block @ [[]]
               @ render_lines (dropWhile hasTabs lines) bodyFontSize)
      else (let normalized = normalizeListPrefix (trim (line_text line))
            in if normalized = [] then [] # render_lines lines bodyFontSize
               else (if looksLikeHeading normalized (line_fontSize line) bodyFontSize
                     then [replicate (headingLevel (line_fontSize line) bodyFontSize) 0x23
                           @ [0x20] @ normalized]
                     else [normalized])
                    @ (if breakAfter line then [[]] else [])
                    @ render_lines lines bodyFontSize))"
  by pat_completeness auto
termination
  by (relation "measure (\<lambda>(lines, bodyFontSize). length lines)")
     (auto simp: le_imp_less_Suc length_dropWhile_le)

text \<open>\<^verbatim>\<open>linesToMarkdown\<close> (App.vue 320-359).\<close>

definition linesToMarkdown :: "ExtractedLine list \<Rightarrow> number \<Rightarrow> jsstring" where
  "linesToMarkdown lines bodyFontSize =
     trim (strip_blanks_before_newline
       (replace_runs 3 (\<lambda>c. c = 0x0A) [0x0A, 0x0A]
          (join [0x0A] (render_lines lines bodyFontSize))))"

subsection \<open>The document\<close>

text \<open>
  \<^verbatim>\<open>pdfToMarkdown\<close> (App.vue 361-393) works on the document that pdf.js has opened:
  its \<^verbatim>\<open>numPages\<close>, and for a page number the items of its text content, or nothing
  when \<^verbatim>\<open>getPage\<close> or \<^verbatim>\<open>getTextContent\<close> rejects. The two errors the function
  throws itself carry a message; \<open>PageLimitExceeded\<close> stands for the message with the
  page count and the limit in it, \<open>NoExtractableText\<close> for the message that no selectable
  text was found. \<open>ExtractionFailure\<close> is the rejection of the extraction, passed on.
\<close>

definition MAX_PDF_PAGES :: nat where
  "MAX_PDF_PAGES = 100"

record PdfDocument =
  numPages :: nat
  getTextContent :: "nat \<Rightarrow> RawItem list option"

datatype pdf_error =
    PageLimitExceeded nat nat
  | NoExtractableText
  | ExtractionFailure nat

text \<open>
  The loop over the page numbers (App.vue 369-378). Beside the pages it returns the page
  numbers whose text content it asked for, in order: the effect of the loop on the
  extraction service.
\<close>

fun read_pages ::
  "PdfDocument \<Rightarrow> nat list \<Rightarrow> ExtractedLine list list \<Rightarrow> nat list
     \<Rightarrow> (pdf_error + ExtractedLine list list) \<times> nat list" where
  "read_pages pdf [] pages requested = (Inr pages, requested)"
| "read_pages pdf (pageNo # later) pages requested =
     (case getTextContent pdf pageNo of
        None \<Rightarrow> (Inl (ExtractionFailure pageNo), requested @ [pageNo])
      | Some textContent \<Rightarrow>
          read_pages pdf later (pages @ [extractLinesFromPdfTextContent textContent])
            (requested @ [pageNo]))"

text \<open>
  The body font size (App.vue 385-389); \<^verbatim>\<open>|| 12\<close> replaces a median that is 0 or
  NaN.
\<close>

definition bodyFontSize_of :: "ExtractedLine list \<Rightarrow> number" where
  "bodyFontSize_of allLines =
     (let bodyFontCandidates =
            map line_fontSize
              (filter (\<lambda>line. length (line_text line) \<ge> 20 \<and> \<not> hasTabs line) allLines);
          fallbackFontCandidates = map line_fontSize allLines;
          median = getMedian (if length bodyFontCandidates > 0 then bodyFontCandidates
                              else fallbackFontCandidates)
      in js_or median (num 12))"

definition pdfToMarkdown :: "PdfDocument \<Rightarrow> (pdf_error + jsstring) \<times> nat list" where
  "pdfToMarkdown pdf =
     (if numPages pdf > MAX_PDF_PAGES
      then (Inl (PageLimitExceeded (numPages pdf) MAX_PDF_PAGES), [])
      else (case read_pages pdf [1..<Suc (numPages pdf)] [] [] of
              (Inl e, requested) \<Rightarrow> (Inl e, requested)
            | (Inr pages, requested) \<Rightarrow>
                (let allLines = concat pages
                 in if length allLines = 0 then (Inl NoExtractableText, requested)
                    else (let bodyFontSize = bodyFontSize_of allLines;
                              perPageMarkdown =
                                filter (\<lambda>markdown. markdown \<noteq> [])
                                  (map (\<lambda>pageLines. linesToMarkdown pageLines bodyFontSize) pages)
                          in (Inr (trim (join ([0x0A, 0x0A] @ lit ''---'' @ [0x0A, 0x0A])
                                           perPageMarkdown)),
                              requested)))))"


section \<open>Properties\<close>

subsection \<open>Powers of two\<close>

lemma pow2_pos: "0 < (2::real) powi e"
  by (simp add: zero_less_power_int)

lemma pow2_mono: "a \<le> b \<Longrightarrow> (2::real) powi a \<le> 2 powi b"
  by (rule power_int_increasing) simp_all

lemma pow2_add: "(2::real) powi (a + b) = 2 powi a * 2 powi b"
  by (rule power_int_add) simp

lemma pow2_diff: "(2::real) powi (a - b) = 2 powi a / 2 powi b"
  by (rule power_int_diff) simp

lemma pow2_nat: "0 \<le> a \<Longrightarrow> (2::real) powi a = of_int (2 ^ nat a)"
  by (simp add: power_int_nonneg_exp)

lemma floor_log2_bounds:
  assumes "0 < x"
  shows "2 powi floor_log2 x \<le> x" and "x < 2 powi (floor_log2 x + 1)"
proof -
  have "2 powi floor_log2 x \<le> x \<and> x < 2 powi (floor_log2 x + 1)"
  proof (cases "1 \<le> x")
    case True
    let ?n = "\<lfloor>x\<rfloor>"
    let ?b = "bitlen ?n"
    from True have n: "0 < ?n" by simp
    from bitlen_bounds [OF n] have lo: "2 ^ nat (?b - 1) \<le> ?n" and hi: "?n < 2 ^ nat ?b"
      by simp_all
    from n have b1: "1 \<le> ?b" by (simp add: bitlen_alt_def)
    have fl: "floor_log2 x = ?b - 1" using True by (simp add: floor_log2_def)
    have "(2::real) powi (?b - 1) = of_int (2 ^ nat (?b - 1))"
      using b1 by (intro pow2_nat) simp
    also have "\<dots> \<le> of_int ?n" using lo by (simp only: of_int_le_iff)
    also have "\<dots> \<le> x" by simp
    finally have a: "2 powi floor_log2 x \<le> x" by (simp only: fl)
    from hi have "?n + 1 \<le> 2 ^ nat ?b" by simp
    then have "(of_int (?n + 1) :: real) \<le> of_int (2 ^ nat ?b)" by (simp only: of_int_le_iff)
    moreover have "x < of_int (?n + 1)" by linarith
    moreover have "(2::real) powi ?b = of_int (2 ^ nat ?b)"
      using b1 by (intro pow2_nat) simp
    ultimately have "x < 2 powi ?b" by linarith
    then have "x < 2 powi (floor_log2 x + 1)" by (simp add: fl)
    with a show ?thesis by simp
  next
    case False
    let ?y = "1 / x"
    let ?c = "\<lceil>?y\<rceil>"
    let ?k = "bitlen (?c - 1)"
    from False assms have y1: "1 < ?y" by simp
    then have c: "0 < ?c - 1" by linarith
    from bitlen_bounds [OF c] have lo: "2 ^ nat (?k - 1) \<le> ?c - 1" and hi: "?c - 1 < 2 ^ nat ?k"
      by simp_all
    from c have k1: "1 \<le> ?k" by (simp add: bitlen_alt_def)
    have fl: "floor_log2 x = - ?k" using False by (simp add: floor_log2_def)
    have pk: "(2::real) powi ?k = of_int (2 ^ nat ?k)"
      using k1 by (intro pow2_nat) simp
    have pk1: "(2::real) powi (?k - 1) = of_int (2 ^ nat (?k - 1))"
      using k1 by (intro pow2_nat) simp
    from hi have "?c \<le> 2 ^ nat ?k" by simp
    then have "(of_int ?c :: real) \<le> of_int (2 ^ nat ?k)" by (simp only: of_int_le_iff)
    moreover have "?y \<le> of_int ?c" by simp
    ultimately have "?y \<le> 2 powi ?k" by (simp only: pk)
    then have "1 \<le> x * 2 powi ?k"
      using assms by (simp add: field_simps)
    then have a: "2 powi (- ?k) \<le> x"
      using pow2_pos [of ?k] by (simp add: power_int_minus field_simps)
    have "(of_int (2 ^ nat (?k - 1)) :: real) \<le> of_int (?c - 1)"
      using lo by (simp only: of_int_le_iff)
    moreover have "of_int (?c - 1) < ?y" by linarith
    ultimately have "2 powi (?k - 1) < ?y" by (simp only: pk1)
    then have "x * 2 powi (?k - 1) < 1"
      using assms by (simp add: field_simps)
    moreover have "(2::real) powi (- ?k + 1) * 2 powi (?k - 1) = 1"
      using pow2_add [of "- ?k + 1" "?k - 1"] by simp
    ultimately have "x * 2 powi (?k - 1) < 2 powi (- ?k + 1) * 2 powi (?k - 1)"
      by simp
    then have "x < 2 powi (- ?k + 1)"
      using pow2_pos [of "?k - 1"] by (simp only: mult_less_cancel_right_pos)
    with a show ?thesis by (simp add: fl)
  qed
  then show "2 powi floor_log2 x \<le> x" and "x < 2 powi (floor_log2 x + 1)" by simp_all
qed

subsection \<open>Rounding to the nearest integer, ties to even\<close>

lemma rhe_of_int: "round_half_even (of_int k) = k"
  by (simp add: round_half_even_def)

lemma rhe_floor: "\<lfloor>q\<rfloor> \<le> round_half_even q" "round_half_even q \<le> \<lfloor>q\<rfloor> + 1"
  by (simp_all add: round_half_even_def Let_def)

lemma rhe_ge: "of_int k \<le> q \<Longrightarrow> k \<le> round_half_even q"
proof -
  assume "of_int k \<le> q"
  then have "k \<le> \<lfloor>q\<rfloor>" by (simp add: le_floor_iff)
  with rhe_floor(1) [of q] show ?thesis by simp
qed

lemma rhe_le:
  assumes "q \<le> of_int k"
  shows "round_half_even q \<le> k"
proof (cases "q = of_int k")
  case True
  then show ?thesis by (simp add: rhe_of_int)
next
  case False
  with assms have "q < of_int k" by simp
  then have "\<lfloor>q\<rfloor> < k" by (simp add: floor_less_iff)
  with rhe_floor(2) [of q] show ?thesis by simp
qed

subsection \<open>Rounding to binary64\<close>

lemma ulp_exponent_ge: "- 1074 \<le> ulp_exponent x"
  by (simp add: ulp_exponent_def)

lemma scaled_bounds:
  assumes "x \<noteq> 0"
  shows "\<bar>x / 2 powi ulp_exponent x\<bar> < 2 ^ 53"
    and "- 1074 < ulp_exponent x \<Longrightarrow> 2 ^ 52 \<le> \<bar>x / 2 powi ulp_exponent x\<bar>"
proof -
  let ?E = "floor_log2 \<bar>x\<bar>"
  let ?e = "ulp_exponent x"
  from assms have pos: "0 < \<bar>x\<bar>" by simp
  note b = floor_log2_bounds [OF pos]
  have q: "\<bar>x / 2 powi ?e\<bar> = \<bar>x\<bar> / 2 powi ?e"
    using pow2_pos [of ?e] by (simp add: abs_mult)
  have "?E + 1 \<le> ?e + 53" by (simp add: ulp_exponent_def)
  from pow2_mono [OF this] b(2) have "\<bar>x\<bar> < 2 powi (?e + 53)" by linarith
  also have "\<dots> = 2 powi ?e * 2 ^ 53" by (simp add: pow2_add)
  finally have "\<bar>x\<bar> / 2 powi ?e < 2 ^ 53"
    using pow2_pos [of ?e] by (simp add: field_simps)
  then show "\<bar>x / 2 powi ?e\<bar> < 2 ^ 53" by (simp only: q)
  assume "- 1074 < ?e"
  then have "?e = ?E - 52" by (simp add: ulp_exponent_def max_def split: if_splits)
  then have "2 powi ?E = 2 powi ?e * (2::real) ^ 52"
    using pow2_add [of ?e 52] by simp
  with b(1) have "2 powi ?e * 2 ^ 52 \<le> \<bar>x\<bar>" by simp
  then have "2 ^ 52 \<le> \<bar>x\<bar> / 2 powi ?e"
    using pow2_pos [of ?e] by (simp add: field_simps)
  then show "2 ^ 52 \<le> \<bar>x / 2 powi ?e\<bar>" by (simp only: q)
qed

lemma round64_nonzero:
  "x \<noteq> 0 \<Longrightarrow>
   round64 x =
     (if overflow_bound \<le> of_int (round_half_even (x / 2 powi ulp_exponent x)) * 2 powi ulp_exponent x
      then PosInf
      else if of_int (round_half_even (x / 2 powi ulp_exponent x)) * 2 powi ulp_exponent x
              \<le> - overflow_bound
      then NegInf
      else Finite (of_int (round_half_even (x / 2 powi ulp_exponent x)) * 2 powi ulp_exponent x))"
  by (simp add: round64_def Let_def)

lemma is_double_0: "is_double 0"
  unfolding is_double_def by (rule exI [of _ 0], rule exI [of _ 0]) simp

lemma is_double_of_int: "\<bar>k\<bar> < 2 ^ 53 \<Longrightarrow> is_double (of_int k)"
  unfolding is_double_def by (rule exI [of _ k], rule exI [of _ 0]) simp

lemma overflow_bound_pos: "0 < overflow_bound"
  by (simp add: overflow_bound_def)

lemma overflow_bound_eq: "overflow_bound = 2 powi 53 * 2 powi 971"
  unfolding overflow_bound_def by (simp only: pow2_add [symmetric]) simp

lemma overflow_bound_split: "overflow_bound = 2 ^ 52 * 2 powi 972"
  unfolding overflow_bound_def
  using pow2_add [of 52 972] by simp

lemma is_double_abs_less: "is_double a \<Longrightarrow> \<bar>a\<bar> < overflow_bound"
proof -
  assume "is_double a"
  then obtain m e :: int where a: "a = of_int m * 2 powi e" and m: "\<bar>m\<bar> < 2 ^ 53"
    and e: "e \<le> 971"
    unfolding is_double_def by blast
  from m have "\<bar>real_of_int m\<bar> < 2 ^ 53"
    by (metis of_int_abs of_int_less_numeral_power_cancel_iff)
  then have m': "\<bar>real_of_int m\<bar> < 2 powi 53" by simp
  from pow2_mono [OF e] have e': "(2::real) powi e \<le> 2 powi 971" .
  have "\<bar>real_of_int m\<bar> * 2 powi e < 2 powi 53 * 2 powi 971"
    by (rule mult_less_le_imp_less [OF m' e' abs_ge_zero pow2_pos])
  then show ?thesis
    using pow2_pos [of e] by (simp only: a abs_mult overflow_bound_eq abs_of_pos)
qed

lemma round64_double:
  assumes "is_double a"
  shows "round64 a = Finite a"
proof (cases "a = 0")
  case True
  then show ?thesis by (simp add: round64_def)
next
  case False
  from assms obtain m e0 :: int where a: "a = of_int m * 2 powi e0" and m: "\<bar>m\<bar> < 2 ^ 53"
    and e0: "- 1074 \<le> e0"
    unfolding is_double_def by blast
  let ?E = "floor_log2 \<bar>a\<bar>"
  let ?e = "ulp_exponent a"
  from False have pos: "0 < \<bar>a\<bar>" by simp
  from m have "\<bar>real_of_int m\<bar> < 2 ^ 53"
    by (metis of_int_abs of_int_less_numeral_power_cancel_iff)
  then have "\<bar>a\<bar> < 2 ^ 53 * 2 powi e0"
    using pow2_pos [of e0] by (simp add: a abs_mult)
  also have "\<dots> = 2 powi (e0 + 53)" by (simp add: pow2_add)
  finally have "(2::real) powi ?E < 2 powi (e0 + 53)"
    using floor_log2_bounds(1) [OF pos] by linarith
  then have "?E < e0 + 53"
    using pow2_mono [of "e0 + 53" ?E] by (cases "?E < e0 + 53") simp_all
  with e0 have le: "?e \<le> e0" by (simp add: ulp_exponent_def)
  then have "(2::real) powi (e0 - ?e) = of_int (2 ^ nat (e0 - ?e))"
    by (intro pow2_nat) simp
  moreover have "a / 2 powi ?e = of_int m * 2 powi (e0 - ?e)"
    unfolding pow2_diff by (subst a) simp
  ultimately have q: "a / 2 powi ?e = of_int (m * 2 ^ nat (e0 - ?e))"
    by simp
  then have "round_half_even (a / 2 powi ?e) = m * 2 ^ nat (e0 - ?e)"
    by (simp only: rhe_of_int)
  then have "of_int (round_half_even (a / 2 powi ?e)) * 2 powi ?e = a / 2 powi ?e * 2 powi ?e"
    using q by simp
  also have "\<dots> = a" using pow2_pos [of ?e] by simp
  finally have g: "of_int (round_half_even (a / 2 powi ?e)) * 2 powi ?e = a" .
  from is_double_abs_less [OF assms] have "\<not> overflow_bound \<le> a" "\<not> a \<le> - overflow_bound"
    by linarith+
  then show ?thesis
    by (simp add: round64_nonzero [OF False] g)
qed

lemma rounded_magnitude:
  assumes "x \<noteq> 0" and "- 1074 < ulp_exponent x"
  shows "2 ^ 52 \<le> \<bar>round_half_even (x / 2 powi ulp_exponent x)\<bar>"
proof -
  let ?q = "x / 2 powi ulp_exponent x"
  from scaled_bounds(2) [OF assms] have "2 ^ 52 \<le> ?q \<or> ?q \<le> - (2 ^ 52)"
    by linarith
  then show ?thesis
  proof
    assume "2 ^ 52 \<le> ?q"
    then have "of_int (2 ^ 52) \<le> ?q" by simp
    from rhe_ge [OF this] show ?thesis by simp
  next
    assume "?q \<le> - (2 ^ 52)"
    then have "?q \<le> of_int (- (2 ^ 52))" by simp
    from rhe_le [OF this] show ?thesis by simp
  qed
qed

lemma rounded_bound:
  assumes "x \<noteq> 0"
  shows "\<bar>round_half_even (x / 2 powi ulp_exponent x)\<bar> \<le> 2 ^ 53"
proof -
  let ?q = "x / 2 powi ulp_exponent x"
  from scaled_bounds(1) [OF assms] have "?q \<le> 2 ^ 53" "- (2 ^ 53) \<le> ?q"
    by linarith+
  then have "?q \<le> of_int (2 ^ 53)" "of_int (- (2 ^ 53)) \<le> ?q"
    by simp_all
  from rhe_le [OF this(1)] rhe_ge [OF this(2)] show ?thesis by simp
qed

lemma round64_overflow:
  assumes "overflow_bound \<le> \<bar>y\<bar>"
  shows "round64 y = PosInf \<or> round64 y = NegInf"
proof -
  let ?e = "ulp_exponent y"
  let ?n = "round_half_even (y / 2 powi ?e)"
  from assms overflow_bound_pos have nz: "y \<noteq> 0" by auto
  then have pos: "0 < \<bar>y\<bar>" by simp
  have "(2::real) powi 1024 = overflow_bound" by (simp add: overflow_bound_def)
  with assms floor_log2_bounds(2) [OF pos]
  have "(2::real) powi 1024 < 2 powi (floor_log2 \<bar>y\<bar> + 1)" by linarith
  then have "1024 < floor_log2 \<bar>y\<bar> + 1"
    using pow2_mono [of "floor_log2 \<bar>y\<bar> + 1" 1024]
    by (cases "1024 < floor_log2 \<bar>y\<bar> + 1") simp_all
  then have e: "972 \<le> ?e" by (simp add: ulp_exponent_def)
  then have "- 1074 < ?e" by simp
  from rounded_magnitude [OF nz this] have "2 ^ 52 \<le> \<bar>real_of_int ?n\<bar>"
    by (metis of_int_abs of_int_le_iff of_int_numeral of_int_power)
  moreover from pow2_mono [OF e] have "(2::real) powi 972 \<le> 2 powi ?e" .
  ultimately have "2 ^ 52 * 2 powi 972 \<le> \<bar>real_of_int ?n\<bar> * 2 powi ?e"
    using pow2_pos [of 972] by (intro mult_mono) simp_all
  then have "overflow_bound \<le> \<bar>of_int ?n * 2 powi ?e\<bar>"
    using pow2_pos [of ?e] by (simp only: overflow_bound_split abs_mult abs_of_pos)
  then show ?thesis
    by (auto simp: round64_nonzero [OF nz])
qed

lemma round64_is_double:
  assumes "round64 x = Finite a"
  shows "is_double a"
proof (cases "x = 0")
  case True
  with assms show ?thesis by (simp add: round64_def is_double_0)
next
  case False
  let ?e = "ulp_exponent x"
  let ?n = "round_half_even (x / 2 powi ?e)"
  from assms have a: "a = of_int ?n * 2 powi ?e"
    and small: "\<not> overflow_bound \<le> of_int ?n * 2 powi ?e"
      "\<not> of_int ?n * 2 powi ?e \<le> - overflow_bound"
    by (simp_all add: round64_nonzero [OF False] split: if_splits)
  then have lt: "\<bar>real_of_int ?n\<bar> * 2 powi ?e < overflow_bound"
    using pow2_pos [of ?e] by (simp add: abs_mult abs_less_iff)
  have e_le: "?e \<le> 971"
  proof (rule ccontr)
    assume "\<not> ?e \<le> 971"
    then have e: "972 \<le> ?e" by simp
    then have "- 1074 < ?e" by simp
    from rounded_magnitude [OF False this] have "2 ^ 52 \<le> \<bar>real_of_int ?n\<bar>"
      by (metis of_int_abs of_int_le_iff of_int_numeral of_int_power)
    moreover from pow2_mono [OF e] have "(2::real) powi 972 \<le> 2 powi ?e" .
    ultimately have "2 ^ 52 * 2 powi 972 \<le> \<bar>real_of_int ?n\<bar> * 2 powi ?e"
      using pow2_pos [of 972] by (intro mult_mono) simp_all
    with lt show False by (simp only: overflow_bound_split)
  qed
  show ?thesis
  proof (cases "\<bar>?n\<bar> < 2 ^ 53")
    case True
    with a e_le ulp_exponent_ge [of x] show ?thesis
      unfolding is_double_def by blast
  next
    case False
    with rounded_bound [OF \<open>x \<noteq> 0\<close>] have n: "\<bar>?n\<bar> = 2 ^ 53" by simp
    then have "\<bar>real_of_int ?n\<bar> = 2 powi 53"
      by (metis of_int_abs of_int_numeral of_int_power power_int_numeral)
    with lt have "(2::real) powi 53 * 2 powi ?e < 2 powi 53 * 2 powi 971"
      by (simp only: overflow_bound_eq)
    then have "(2::real) powi ?e < 2 powi 971"
      using pow2_pos [of 53] by (simp only: mult_less_cancel_left_pos)
    then have "?e < 971"
      using pow2_mono [of 971 ?e] by (cases "?e < 971") simp_all
    then have e1: "?e + 1 \<le> 971" "- 1074 \<le> ?e + 1"
      using ulp_exponent_ge [of x] by simp_all
    from n have "?n = 2 ^ 53 \<or> ?n = - (2 ^ 53)" by linarith
    then have "?n = 2 * (?n div 2)" "\<bar>?n div 2\<bar> < 2 ^ 53"
      by auto
    then have "a = of_int (?n div 2) * 2 powi (?e + 1)" "\<bar>?n div 2\<bar> < 2 ^ 53"
      using a by (simp_all add: pow2_add)
    with e1 show ?thesis
      unfolding is_double_def by blast
  qed
qed

subsection \<open>Signs\<close>

lemma round64_nonneg:
  assumes "0 \<le> x"
  shows "round64 x = PosInf \<or> (\<exists>r. round64 x = Finite r \<and> 0 \<le> r)"
proof (cases "x = 0")
  case True
  then show ?thesis by (simp add: round64_def)
next
  case False
  let ?e = "ulp_exponent x"
  from assms have "of_int 0 \<le> x / 2 powi ?e"
    using pow2_pos [of ?e] by simp
  from rhe_ge [OF this] have "0 \<le> real_of_int (round_half_even (x / 2 powi ?e)) * 2 powi ?e"
    using pow2_pos [of ?e] by simp
  with overflow_bound_pos show ?thesis
    by (auto simp: round64_nonzero [OF False])
qed

lemma round64_nonpos:
  assumes "x \<le> 0"
  shows "round64 x = NegInf \<or> (\<exists>r. round64 x = Finite r \<and> r \<le> 0)"
proof (cases "x = 0")
  case True
  then show ?thesis by (simp add: round64_def)
next
  case False
  let ?e = "ulp_exponent x"
  from assms have "x / 2 powi ?e \<le> of_int 0"
    using pow2_pos [of ?e] by (simp add: divide_le_0_iff)
  from rhe_le [OF this] have "real_of_int (round_half_even (x / 2 powi ?e)) * 2 powi ?e \<le> 0"
    using pow2_pos [of ?e] by (simp add: mult_le_0_iff)
  with overflow_bound_pos show ?thesis
    by (auto simp: round64_nonzero [OF False])
qed

lemma tiny_pos: "0 < tiny"
  unfolding tiny_def by (rule pow2_pos)

lemma is_double_multiple:
  assumes "is_double a"
  shows "\<exists>k :: int. a = of_int k * tiny"
proof -
  from assms obtain m e :: int where a: "a = of_int m * 2 powi e" and e: "- 1074 \<le> e"
    unfolding is_double_def by blast
  from e have "(2::real) powi (e + 1074) = of_int (2 ^ nat (e + 1074))"
    by (intro pow2_nat) simp
  moreover have "(2::real) powi e = 2 powi (e + 1074) * tiny"
    unfolding tiny_def using pow2_add [of "e + 1074" "- 1074"] by (simp del: power_int_minus)
  ultimately have "a = of_int (m * 2 ^ nat (e + 1074)) * tiny"
    by (simp add: a)
  then show ?thesis ..
qed

lemma round64_pos_multiple:
  assumes x: "x = of_int k * tiny" and k: "0 < k"
  shows "round64 x = PosInf \<or> (\<exists>r. round64 x = Finite r \<and> 0 < r)"
proof -
  let ?e = "ulp_exponent x"
  let ?n = "round_half_even (x / 2 powi ?e)"
  from x k have pos: "0 < x" using tiny_pos by simp
  then have nz: "x \<noteq> 0" by simp
  have "0 < ?n"
  proof (cases "?e = - 1074")
    case True
    then have "2 powi ?e = tiny" by (simp only: tiny_def)
    then have "x / 2 powi ?e = of_int k"
      using tiny_pos by (simp add: x)
    then show ?thesis using k by (simp add: rhe_of_int)
  next
    case False
    with ulp_exponent_ge [of x] have "- 1074 < ?e" by simp
    from rounded_magnitude [OF nz this] have "2 ^ 52 \<le> \<bar>?n\<bar>" .
    moreover from pos have "of_int 0 \<le> x / 2 powi ?e"
      using pow2_pos [of ?e] by simp
    from rhe_ge [OF this] have "0 \<le> ?n" .
    ultimately show ?thesis by simp
  qed
  then have "0 < real_of_int ?n * 2 powi ?e"
    using pow2_pos [of ?e] by simp
  with overflow_bound_pos show ?thesis
    by (auto simp: round64_nonzero [OF nz])
qed

lemma round64_double_difference:
  assumes "is_double a" and "is_double b" and "a < b"
  shows "round64 (b - a) = PosInf \<or> (\<exists>r. round64 (b - a) = Finite r \<and> 0 < r)"
proof -
  from is_double_multiple [OF assms(1)] obtain i :: int where a: "a = of_int i * tiny" ..
  from is_double_multiple [OF assms(2)] obtain j :: int where b: "b = of_int j * tiny" ..
  from assms(3) have "i < j"
    using tiny_pos by (simp add: a b)
  then have "0 < j - i" by simp
  moreover have "b - a = of_int (j - i) * tiny"
    by (simp add: a b algebra_simps)
  ultimately show ?thesis
    by (rule round64_pos_multiple [rotated])
qed

subsection \<open>Integers and doubling\<close>

lemma is_double_round:
  assumes "is_double a"
  shows "is_double (of_int \<lfloor>a + 1 / 2\<rfloor>)"
proof -
  from assms obtain m e :: int where a: "a = of_int m * 2 powi e" and m: "\<bar>m\<bar> < 2 ^ 53"
    unfolding is_double_def by blast
  show ?thesis
  proof (cases "0 \<le> e")
    case True
    then have "(2::real) powi e = of_int (2 ^ nat e)" by (rule pow2_nat)
    then have "a = of_int (m * 2 ^ nat e)" by (simp add: a)
    moreover have "\<lfloor>real_of_int (m * 2 ^ nat e) + 1 / 2\<rfloor> = m * 2 ^ nat e"
      by (simp add: floor_eq_iff)
    ultimately have "of_int \<lfloor>a + 1 / 2\<rfloor> = a"
      by simp
    with assms show ?thesis by simp
  next
    case False
    then have "e \<le> - 1" by simp
    from pow2_mono [OF this] have "(2::real) powi e \<le> 1 / 2" by simp
    moreover from m have "\<bar>real_of_int m\<bar> < 2 ^ 53"
      by (metis of_int_abs of_int_less_numeral_power_cancel_iff)
    ultimately have "\<bar>real_of_int m\<bar> * 2 powi e < 2 ^ 53 * (1 / 2)"
      by (intro mult_less_le_imp_less) (simp_all add: pow2_pos)
    then have "\<bar>a\<bar> < 2 ^ 52"
      using pow2_pos [of e] by (simp add: a abs_mult)
    then have "\<bar>\<lfloor>a + 1 / 2\<rfloor>\<bar> < 2 ^ 53"
      by (simp add: abs_less_iff floor_less_iff less_floor_iff) linarith
    then show ?thesis by (rule is_double_of_int)
  qed
qed

lemma is_double_twice:
  assumes "is_double k" and "\<bar>2 * k\<bar> < overflow_bound"
  shows "is_double (2 * k)"
proof -
  from assms(1) obtain m e :: int where k: "k = of_int m * 2 powi e" and m: "\<bar>m\<bar> < 2 ^ 53"
    and e: "- 1074 \<le> e" "e \<le> 971"
    unfolding is_double_def by blast
  show ?thesis
  proof (cases "e \<le> 970")
    case True
    have "2 * k = of_int m * 2 powi (e + 1)" by (simp add: k pow2_add)
    with m e True show ?thesis
      unfolding is_double_def by (intro exI [of _ m] exI [of _ "e + 1"]) simp
  next
    case False
    with e have e971: "e = 971" by simp
    have "\<bar>2 * k\<bar> = \<bar>real_of_int m\<bar> * 2 powi 972"
      using pow2_add [of 971 1] by (simp add: k e971 abs_mult)
    with assms(2) have "\<bar>real_of_int m\<bar> * 2 powi 972 < 2 ^ 52 * 2 powi 972"
      by (simp only: overflow_bound_split)
    then have "\<bar>real_of_int m\<bar> < 2 ^ 52"
      using pow2_pos [of 972] by (simp only: mult_less_cancel_right_pos)
    then have "\<bar>m\<bar> < 2 ^ 52"
      by (metis of_int_abs of_int_less_numeral_power_cancel_iff)
    then have "\<bar>2 * m\<bar> < 2 ^ 53" by simp
    moreover have "2 * k = of_int (2 * m) * 2 powi 971" by (simp add: k e971)
    ultimately show ?thesis
      unfolding is_double_def by (intro exI [of _ "2 * m"] exI [of _ 971]) simp
  qed
qed

subsection \<open>Literals\<close>

lemma num_int: "\<bar>k\<bar> < 2 ^ 53 \<Longrightarrow> num (of_int k) = Finite (of_int k)"
  unfolding num_def by (intro round64_double is_double_of_int)

lemma num_0: "num 0 = Finite 0"
  using num_int [of 0] by simp

lemma num_1: "num 1 = Finite 1"
  using num_int [of 1] by simp

lemma num_2: "num 2 = Finite 2"
  using num_int [of 2] by simp

lemmas num_eval = num_def round64_def ulp_exponent_def floor_log2_def round_half_even_def
  compute_bitlen overflow_bound_def Let_def

subsection \<open>Quantization\<close>

lemma quantizeY_Finite:
  "quantizeY (Finite x) = fmul (Math_round (round64 (x / 2))) (Finite 2)"
  by (simp add: quantizeY_def num_2)

lemma round64_twice:
  assumes "is_double k" and "round64 (k * 2) = Finite b"
  shows "b = k * 2" and "is_double b"
proof -
  have "\<bar>2 * k\<bar> < overflow_bound"
  proof (rule ccontr)
    assume "\<not> \<bar>2 * k\<bar> < overflow_bound"
    then have "overflow_bound \<le> \<bar>k * 2\<bar>" by (simp add: mult.commute)
    from round64_overflow [OF this] assms(2) show False by auto
  qed
  from is_double_twice [OF assms(1) this] have d: "is_double (k * 2)"
    by (simp add: mult.commute)
  from round64_double [OF this] assms(2) show "b = k * 2" by simp
  with d show "is_double b" by simp
qed

lemma quantized_double:
  assumes "is_double a"
  shows "quantizeY (fmul (Math_round (Finite a)) (Finite 2)) = fmul (Math_round (Finite a)) (Finite 2)"
proof -
  let ?k = "real_of_int \<lfloor>a + 1 / 2\<rfloor>"
  from is_double_round [OF assms] have k: "is_double ?k" .
  show ?thesis
  proof (cases "round64 (?k * 2)")
    case (Finite b)
    from round64_twice [OF k Finite] have b: "b = ?k * 2" "is_double b" .
    then have "round64 (b / 2) = Finite ?k"
      using round64_double [OF k] by simp
    moreover have "\<lfloor>?k + 1 / 2\<rfloor> = \<lfloor>a + 1 / 2\<rfloor>"
      by (simp add: floor_eq_iff)
    ultimately show ?thesis
      using Finite by (simp add: quantizeY_Finite)
  next
    case PosInf
    then show ?thesis by (simp add: quantizeY_def num_2)
  next
    case NegInf
    then show ?thesis by (simp add: quantizeY_def num_2)
  next
    case NaN
    then show ?thesis by (simp add: quantizeY_def num_2)
  qed
qed

text \<open>
  Claim C8. Quantizing twice is quantizing once: \<open>quantizeY (quantizeY y) = quantizeY y\<close>
  for every number \<open>y\<close>, an infinity and NaN included, where \<open>quantizeY y\<close> is
  \<open>round (y / 2) * 2\<close> in binary64.
\<close>

theorem quantizeY_idempotent:
  "quantizeY (quantizeY y) = quantizeY y \<and>
   quantizeY y = fmul (Math_round (fdiv y (num 2))) (num 2)"
proof -
  have "quantizeY (quantizeY y) = quantizeY y"
  proof (cases y)
    case (Finite x)
    show ?thesis
    proof (cases "round64 (x / 2)")
      case (Finite a)
      from round64_is_double [OF this] have "is_double a" .
      from quantized_double [OF this] show ?thesis
        by (simp add: quantizeY_Finite \<open>y = Finite x\<close> Finite)
    qed (simp_all add: quantizeY_def num_2 \<open>y = Finite x\<close>)
  qed (simp_all add: quantizeY_def num_2)
  then show ?thesis by (simp add: quantizeY_def)
qed

subsection \<open>The order of the numbers\<close>

lemma js_le_refl: "a \<noteq> NaN \<Longrightarrow> js_le a a"
  by (simp add: js_le_def)

lemma js_le_total: "a \<noteq> NaN \<Longrightarrow> b \<noteq> NaN \<Longrightarrow> js_le a b \<or> js_le b a"
  by (cases a; cases b) (auto simp: js_le_def)

lemma js_le_antisym: "js_le a b \<Longrightarrow> js_le b a \<Longrightarrow> a = b"
  by (cases a; cases b) (auto simp: js_le_def)

lemma js_le_trans: "js_le a b \<Longrightarrow> js_le b c \<Longrightarrow> js_le a c"
  by (cases a; cases b; cases c) (auto simp: js_le_def)

lemma not_js_lt: "a \<noteq> NaN \<Longrightarrow> b \<noteq> NaN \<Longrightarrow> \<not> js_lt b a \<longleftrightarrow> js_le a b"
  by (cases a; cases b) (auto simp: js_le_def)

lemma difference_sign:
  assumes "is_binary64 a" and "is_binary64 b" and "a \<noteq> NaN" and "b \<noteq> NaN"
  shows "js_gt (fsub a b) (Finite 0) \<longleftrightarrow> js_lt b a"
proof (cases a)
  case a: (Finite x)
  show ?thesis
  proof (cases b)
    case b: (Finite y)
    from assms a b have d: "is_double x" "is_double y" by (simp_all add: is_binary64_def)
    show ?thesis
    proof (cases "y < x")
      case True
      from round64_double_difference [OF d(2) d(1) True] True show ?thesis
        by (auto simp: a b fsub_def js_gt_def)
    next
      case False
      then have "x - y \<le> 0" by simp
      from round64_nonpos [OF this] False show ?thesis
        by (auto simp: a b fsub_def js_gt_def)
    qed
  qed (use assms a in \<open>simp_all add: fsub_def js_gt_def\<close>)
next
  case PosInf
  with assms show ?thesis by (cases b) (simp_all add: fsub_def js_gt_def)
next
  case NegInf
  with assms show ?thesis by (cases b) (simp_all add: fsub_def js_gt_def)
next
  case NaN
  with assms show ?thesis by simp
qed

subsection \<open>The sort of the median\<close>

lemma set_js_insort: "set (js_insort compare x ys) = insert x (set ys)"
  by (induction ys) auto

lemma mset_js_insort: "mset (js_insort compare x ys) = add_mset x (mset ys)"
  by (induction ys) auto

lemma mset_js_sort: "mset (js_sort compare xs) = mset xs"
  by (induction xs) (simp_all add: js_sort_def mset_js_insort)

lemma set_js_sort: "set (js_sort compare xs) = set xs"
  by (induction xs) (simp_all add: js_sort_def set_js_insort)

lemma length_js_sort: "length (js_sort compare xs) = length xs"
  using mset_js_sort [of compare xs] by (metis size_mset)

lemma insort_ascending:
  assumes "is_binary64 x \<and> x \<noteq> NaN" and "\<forall>v \<in> set ys. is_binary64 v \<and> v \<noteq> NaN"
    and "ascending ys"
  shows "ascending (js_insort (\<lambda>a b. fsub a b) x ys)"
  using assms(2,3)
proof (induction ys)
  case Nil
  show ?case by (simp add: ascending_def)
next
  case (Cons y ys)
  from Cons.prems have y: "is_binary64 y" "y \<noteq> NaN" and ys: "\<forall>v \<in> set ys. is_binary64 v \<and> v \<noteq> NaN"
    and asc: "ascending ys" and first: "\<forall>z \<in> set ys. js_le y z"
    by (simp_all add: ascending_def)
  from assms(1) y have sign: "js_gt (fsub x y) (Finite 0) \<longleftrightarrow> js_lt y x"
    by (intro difference_sign) simp_all
  show ?case
  proof (cases "js_lt y x")
    case True
    then have "js_le y x" by (simp add: js_le_def)
    with first have "\<forall>z \<in> set (js_insort (\<lambda>a b. fsub a b) x ys). js_le y z"
      by (simp add: set_js_insort)
    with Cons.IH [OF ys asc] True sign show ?thesis
      by (simp add: ascending_def)
  next
    case False
    with assms(1) y have xy: "js_le x y" by (simp add: not_js_lt)
    with first have "\<forall>z \<in> set ys. js_le x z" by (blast intro: js_le_trans)
    with xy Cons.prems(2) False sign show ?thesis
      by (simp add: ascending_def)
  qed
qed

lemma sort_ascending_ascending:
  "\<forall>v \<in> set values. is_binary64 v \<and> v \<noteq> NaN \<Longrightarrow> ascending (sort_ascending values)"
proof (induction "values")
  case Nil
  show ?case by (simp add: sort_ascending_def js_sort_def ascending_def)
next
  case (Cons v vs)
  then have "ascending (js_sort (\<lambda>a b. fsub a b) vs)"
    by (simp add: sort_ascending_def)
  moreover have "\<forall>w \<in> set (js_sort (\<lambda>a b. fsub a b) vs). is_binary64 w \<and> w \<noteq> NaN"
    using Cons.prems by (simp add: set_js_sort)
  ultimately have "ascending (js_insort (\<lambda>a b. fsub a b) v (js_sort (\<lambda>a b. fsub a b) vs))"
    using Cons.prems by (intro insort_ascending) simp_all
  then show ?case by (simp add: sort_ascending_def js_sort_def)
qed

lemma ascending_unique:
  assumes "ascending s" and "ascending t" and "mset s = mset t" and "\<forall>v \<in> set s. v \<noteq> NaN"
  shows "s = t"
  using assms
proof (induction s arbitrary: t)
  case Nil
  then show ?case by simp
next
  case (Cons x xs)
  then obtain y ys where t: "t = y # ys" by (cases t) auto
  from Cons.prems(3) have sets: "set (x # xs) = set t" by (metis set_mset_mset)
  from Cons.prems(4) have x: "x \<noteq> NaN" by simp
  with sets t have y: "y \<noteq> NaN" using Cons.prems(4) by (metis list.set_intros(1))
  have "js_le y x"
  proof (cases "x = y")
    case True
    with x show ?thesis by (simp add: js_le_refl)
  next
    case False
    with sets t have "x \<in> set ys" by auto
    with Cons.prems(2) t show ?thesis by (simp add: ascending_def)
  qed
  moreover have "js_le x y"
  proof (cases "x = y")
    case True
    with x show ?thesis by (simp add: js_le_refl)
  next
    case False
    with sets t have "y \<in> set xs" by auto
    with Cons.prems(1) show ?thesis by (simp add: ascending_def)
  qed
  ultimately have xy: "x = y" by (rule js_le_antisym [rotated])
  with Cons.prems t have "ascending xs" "ascending ys" "mset xs = mset ys" "\<forall>v \<in> set xs. v \<noteq> NaN"
    by (simp_all add: ascending_def)
  from Cons.IH [OF this] xy t show ?case by simp
qed

lemma sort_ascending_unique:
  assumes "\<forall>v \<in> set values. is_binary64 v \<and> v \<noteq> NaN"
    and "ascending s" and "mset s = mset values"
  shows "sort_ascending values = s"
proof -
  have "mset (sort_ascending values) = mset s"
    by (simp add: sort_ascending_def mset_js_sort assms(3))
  moreover have "\<forall>v \<in> set (sort_ascending values). v \<noteq> NaN"
    using assms(1) by (simp add: sort_ascending_def set_js_sort)
  ultimately show ?thesis
    using sort_ascending_ascending [OF assms(1)] assms(2) by (intro ascending_unique)
qed

text \<open>
  Claim C5. \<^verbatim>\<open>getMedian\<close> works on the ascending arrangement of its input: for a
  non-empty input of binary64 values other than NaN, whatever ascending list \<open>s\<close> has the
  elements of the input, the result is the middle element of \<open>s\<close> when the length is odd,
  and when it is even the average of the two middle elements as binary64 computes it, the
  sum rounded and then halved. The median of \<open>[1, 2, 3, 4]\<close> is \<open>2.5\<close>, of \<open>[7]\<close> is
  \<open>7\<close>, of \<open>[]\<close> is \<open>0\<close>.
\<close>

theorem getMedian_correct:
  "getMedian [num 1, num 2, num 3, num 4] = num 2.5 \<and> getMedian [num 7] = num 7 \<and>
   getMedian [] = num 0 \<and>
   (\<forall>s. (\<forall>v \<in> set values. is_binary64 v \<and> v \<noteq> NaN) \<and>
        ascending s \<and> mset s = mset values \<and> values \<noteq> [] \<longrightarrow>
      getMedian values =
        (if even (length s)
         then fdiv (fadd (s ! (length s div 2 - 1)) (s ! (length s div 2))) (num 2)
         else s ! (length s div 2)))"
proof -
  have c1: "getMedian [num 1, num 2, num 3, num 4] = num 2.5"
    by (simp add: getMedian_def sort_ascending_def js_sort_def fsub_def js_gt_def num_eval)
  have c2: "getMedian [num 7] = num 7"
    by (simp add: getMedian_def sort_ascending_def js_sort_def)
  have c3: "getMedian [] = num 0"
    by (simp add: getMedian_def)
  have c4: "getMedian values =
        (if even (length s)
         then fdiv (fadd (s ! (length s div 2 - 1)) (s ! (length s div 2))) (num 2)
         else s ! (length s div 2))"
    if h: "(\<forall>v \<in> set values. is_binary64 v \<and> v \<noteq> NaN) \<and>
        ascending s \<and> mset s = mset values \<and> values \<noteq> []" for s
  proof -
    from h have eq: "sort_ascending values = s"
      by (intro sort_ascending_unique) simp_all
    from h show ?thesis
      by (simp add: getMedian_def eq Let_def even_iff_mod_2_eq_zero)
  qed
  from c1 c2 c3 c4 show ?thesis by blast
qed

theorem getMedian_correct_witness:
  "ascending [num 1, num (2 ^ 53)] \<and> mset [num 1, num (2 ^ 53)] = mset [num (2 ^ 53), num 1] \<and>
   getMedian [num (2 ^ 53), num 1] = num (2 ^ 52) \<and>
   ascending [num 2, num 3, num 9] \<and> getMedian [num 9, num 2, num 3] = num 3"
proof -
  have v: "\<forall>v \<in> set [num (2 ^ 53), num 1]. is_binary64 v \<and> v \<noteq> NaN"
    "\<forall>v \<in> set [num 9, num 2, num 3]. is_binary64 v \<and> v \<noteq> NaN"
    using round64_is_double by (auto simp: is_binary64_def num_def split: number.splits)
       (simp_all add: num_eval)
  have a: "ascending [num 1, num (2 ^ 53)]" "ascending [num 2, num 3, num 9]"
    by (simp_all add: ascending_def js_le_def num_eval)
  have m: "mset [num 1, num (2 ^ 53)] = mset [num (2 ^ 53), num 1]"
    "mset [num 2, num 3, num 9] = mset [num 9, num 2, num 3]"
    by simp_all
  from getMedian_correct [of "[num (2 ^ 53), num 1]"] v(1) a(1) m(1)
  have "getMedian [num (2 ^ 53), num 1] =
      fdiv (fadd ([num 1, num (2 ^ 53)] ! 0) ([num 1, num (2 ^ 53)] ! 1)) (num 2)"
    by (simp del: mset.simps)
  also have "\<dots> = num (2 ^ 52)"
    by (simp add: num_eval)
  finally have one: "getMedian [num (2 ^ 53), num 1] = num (2 ^ 52)" .
  from getMedian_correct [of "[num 9, num 2, num 3]"] v(2) a(2) m(2)
  have "getMedian [num 9, num 2, num 3] = [num 2, num 3, num 9] ! 1"
    by (simp del: mset.simps)
  then have two: "getMedian [num 9, num 2, num 3] = num 3" by simp
  from a m one two show ?thesis by simp
qed

subsection \<open>The argument of the median\<close>

text \<open>
  Claim C9. \<^verbatim>\<open>getMedian\<close> leaves its argument as it was: the array at the address
  passed, and every other array that existed at the call, hold the same elements after
  the call, the sort having run on a fresh copy; the value returned is the median of the
  argument.
\<close>

theorem getMedian_store_frame:
  "values < length s \<Longrightarrow>
     snd (getMedian_store s values) ! values = s ! values \<and>
     (\<forall>a < length s. snd (getMedian_store s values) ! a = s ! a) \<and>
     fst (getMedian_store s values) = getMedian (s ! values)"
  by (simp add: getMedian_store_def getMedian_def array_spread_def array_sort_def
      Let_def nth_append)

theorem getMedian_store_frame_witness:
  "(1::nat) < length [[num 5], [num 3, num 1, num 2]] \<and>
   snd (getMedian_store [[num 5], [num 3, num 1, num 2]] 1) ! 1 = [num 3, num 1, num 2] \<and>
   fst (getMedian_store [[num 5], [num 3, num 1, num 2]] 1) = num 2"
proof -
  have h: "(1::nat) < length [[num 5], [num 3, num 1, num 2]]" by simp
  have m: "getMedian [num 3, num 1, num 2] = num 2"
    by (simp add: getMedian_def sort_ascending_def js_sort_def fsub_def js_gt_def num_eval)
  from getMedian_store_frame [OF h] m show ?thesis by simp
qed


subsection \<open>Strings\<close>

lemmas text_tests = lit_def trim_def isSpace_def startsWithBullet_def startsWithNumber_def isDigit_def

lemma split_whitespace_word:
  "\<forall>c \<in> set s. \<not> isSpace c \<Longrightarrow> split_whitespace s = [s]"
proof -
  assume a: "\<forall>c \<in> set s. \<not> isSpace c"
  then have b: "dropWhile (\<lambda>c. \<not> isSpace c) s = []" "takeWhile (\<lambda>c. \<not> isSpace c) s = s"
    by simp_all
  show ?thesis
    by (subst split_whitespace.simps) (simp add: Let_def b)
qed

lemma split_whitespace_Nil: "split_whitespace [] = [[]]"
  by (subst split_whitespace.simps) simp

lemma split_whitespace_Cons:
  "split_whitespace (c # cs) =
     (if isSpace c then [] # split_whitespace (dropWhile isSpace cs)
      else (c # hd (split_whitespace cs)) # tl (split_whitespace cs))"
proof (cases "isSpace c")
  case True
  then show ?thesis by (subst split_whitespace.simps) simp
next
  case False
  have "split_whitespace (c # cs) =
      (case dropWhile (\<lambda>c. \<not> isSpace c) cs of
         [] \<Rightarrow> [c # takeWhile (\<lambda>c. \<not> isSpace c) cs]
       | e # es \<Rightarrow> (c # takeWhile (\<lambda>c. \<not> isSpace c) cs) # split_whitespace (dropWhile isSpace es))"
    using False by (subst split_whitespace.simps) (simp add: Let_def)
  moreover have "split_whitespace cs =
      (case dropWhile (\<lambda>c. \<not> isSpace c) cs of
         [] \<Rightarrow> [takeWhile (\<lambda>c. \<not> isSpace c) cs]
       | e # es \<Rightarrow> takeWhile (\<lambda>c. \<not> isSpace c) cs # split_whitespace (dropWhile isSpace es))"
    by (subst split_whitespace.simps) (simp add: Let_def)
  ultimately show ?thesis
    using False
    by (cases "dropWhile (\<lambda>c. \<not> isSpace c) cs") (simp_all only: list.case if_False list.sel)
qed

lemmas split_whitespace_eval = split_whitespace_Nil split_whitespace_Cons

lemma split_char_Nil: "split_char d [] = [[]]"
  by (subst split_char.simps) simp

lemma split_char_Cons:
  "split_char d (c # cs) =
     (if c = d then [] # split_char d cs
      else (c # hd (split_char d cs)) # tl (split_char d cs))"
proof (cases "c = d")
  case True
  then show ?thesis by (subst split_char.simps) simp
next
  case False
  have "split_char d (c # cs) =
      (case dropWhile (\<lambda>c. c \<noteq> d) cs of
         [] \<Rightarrow> [c # takeWhile (\<lambda>c. c \<noteq> d) cs]
       | e # es \<Rightarrow> (c # takeWhile (\<lambda>c. c \<noteq> d) cs) # split_char d es)"
    using False by (subst split_char.simps) (simp add: Let_def)
  moreover have "split_char d cs =
      (case dropWhile (\<lambda>c. c \<noteq> d) cs of
         [] \<Rightarrow> [takeWhile (\<lambda>c. c \<noteq> d) cs]
       | e # es \<Rightarrow> takeWhile (\<lambda>c. c \<noteq> d) cs # split_char d es)"
    by (subst split_char.simps) (simp add: Let_def)
  ultimately show ?thesis
    using False by (cases "dropWhile (\<lambda>c. c \<noteq> d) cs") (simp_all only: list.case if_False list.sel)
qed

lemmas split_char_eval = split_char_Nil split_char_Cons

lemma dropWhile_suffix_last:
  "dropWhile P xs \<noteq> [] \<Longrightarrow> last (dropWhile P xs) = last xs"
  by (induction xs) (auto split: if_splits)

lemma trimmed_trim: "trimmed (trim s)"
proof (cases "trim s = []")
  case True
  then show ?thesis by (simp add: trimmed_def)
next
  case False
  let ?u = "dropWhile isSpace s"
  let ?v = "dropWhile isSpace (rev ?u)"
  from False have v: "?v \<noteq> []" by (simp add: trim_def)
  have u: "?u \<noteq> []"
  proof
    assume "?u = []"
    then have "?v = []" by (simp only: rev.simps dropWhile.simps)
    with v show False by contradiction
  qed
  have "\<not> isSpace (hd ?v)" using v by (rule hd_dropWhile)
  then have l: "\<not> isSpace (last (trim s))"
    using v by (simp add: trim_def last_rev)
  have "last ?v = last (rev ?u)" using v by (rule dropWhile_suffix_last)
  also have "\<dots> = hd ?u" using u by (simp add: last_rev)
  finally have "hd (trim s) = hd ?u" using v by (simp add: trim_def hd_rev)
  moreover have "\<not> isSpace (hd ?u)" using u by (rule hd_dropWhile)
  ultimately show ?thesis using l by (simp add: trimmed_def)
qed

lemma trim_trimmed: "trimmed t \<Longrightarrow> trim t = t"
proof (cases t)
  case Nil
  then show ?thesis by (simp add: trim_def)
next
  case (Cons c cs)
  assume "trimmed t"
  with Cons have h: "\<not> isSpace c" and l: "\<not> isSpace (last t)"
    by (simp_all add: trimmed_def)
  from h Cons have a: "dropWhile isSpace t = t" by simp
  from Cons have "rev t \<noteq> []" by simp
  then obtain d ds where r: "rev t = d # ds" by (cases "rev t") auto
  then have "d = last t" using Cons by (metis hd_rev list.sel(1) list.distinct(1) rev_rev_ident last_rev)
  with l have "dropWhile isSpace (d # ds) = d # ds" by simp
  then have "dropWhile isSpace (rev t) = rev t" by (simp only: r)
  with a show ?thesis by (simp add: trim_def)
qed

lemma escape_pipes_Nil: "escape_pipes t = [] \<longleftrightarrow> t = []"
  by (cases t) simp_all

lemma last_escape_pipes: "t \<noteq> [] \<Longrightarrow> last (escape_pipes t) = last t"
  by (induction t) (auto simp: escape_pipes_Nil)

subsection \<open>Markers and words\<close>

lemma round64_not_NaN: "round64 x \<noteq> NaN"
  by (simp add: round64_def Let_def)

lemma num_not_NaN: "num x \<noteq> NaN"
  by (simp add: num_def round64_not_NaN)

lemma fdiv_not_NaN:
  "js_le (Finite 1) b \<Longrightarrow> fdiv (Finite f) b \<noteq> NaN"
  by (cases b) (auto simp add: js_le_def round64_not_NaN)

lemma Math_max_below: "js_lt b (num 1) \<Longrightarrow> Math_max b (num 1) = num 1"
  by (cases b) (simp_all add: Math_max_def num_1)

lemma Math_max_above: "js_ge b (num 1) \<Longrightarrow> Math_max b (num 1) = b"
  by (cases b) (auto simp add: Math_max_def num_1 js_ge_def js_le_def)

lemma Math_max_not_NaN: "b \<noteq> NaN \<Longrightarrow> Math_max b (num 1) \<noteq> NaN \<and> js_le (Finite 1) (Math_max b (num 1))"
  by (cases b) (auto simp add: Math_max_def num_1 js_le_def)

lemma ratio_test:
  assumes "r \<noteq> NaN"
  shows "\<not> js_lt r (num c) \<longleftrightarrow> js_ge r (num c)"
  unfolding js_ge_def using not_js_lt [OF num_not_NaN assms] .

lemma set_trim: "set (trim s) \<subseteq> set s"
proof -
  have "set (trim s) = set (dropWhile isSpace (rev (dropWhile isSpace s)))"
    by (simp add: trim_def)
  also have "\<dots> \<subseteq> set (rev (dropWhile isSpace s))"
    by (auto dest: set_dropWhileD)
  also have "\<dots> \<subseteq> set s"
    by (auto dest: set_dropWhileD)
  finally show ?thesis .
qed

lemma plain_spaces_trim: "plain_spaces s \<Longrightarrow> plain_spaces (trim s)"
  using set_trim [of s] by (auto simp add: plain_spaces_def list_all_iff)

lemma startsWithBullet_iff:
  assumes "plain_spaces p" and "0x09 \<notin> set p"
  shows "startsWithBullet p \<longleftrightarrow> spec_bulletMarker p"
proof
  assume "startsWithBullet p"
  then obtain c d ds where p: "p = c # d # ds" and c: "c = 0x2D \<or> c = 0x2A" and d: "isSpace d"
    by (auto simp add: startsWithBullet_def split: list.splits)
  from assms p d have "d = 0x20"
    by (auto simp add: plain_spaces_def)
  with p c show "spec_bulletMarker p"
    by (auto simp add: spec_bulletMarker_def lit_def)
next
  assume "spec_bulletMarker p"
  then show "startsWithBullet p"
    by (auto simp add: spec_bulletMarker_def lit_def startsWithBullet_def isSpace_def)
qed

lemma startsWithNumber_iff:
  assumes "plain_spaces p" and "0x09 \<notin> set p"
  shows "startsWithNumber p \<longleftrightarrow> spec_numberMarker p"
proof
  assume a: "startsWithNumber p"
  then obtain c d ds where r: "dropWhile isDigit p = c # d # ds"
    and c: "c = 0x2E \<or> c = 0x29" and d: "isSpace d" and t: "takeWhile isDigit p \<noteq> []"
    by (auto simp add: startsWithNumber_def split: list.splits)
  have p: "p = takeWhile isDigit p @ c # d # ds"
    using takeWhile_dropWhile_id [of isDigit p] r by simp
  then have "d \<in> set p"
    by (metis in_set_conv_decomp list.set_intros(1) list.set_intros(2) set_append Un_iff)
  with assms d have "d = 0x20"
    by (auto simp add: plain_spaces_def list_all_iff)
  with p c have "p = takeWhile isDigit p @ lit ''. '' @ ds \<or> p = takeWhile isDigit p @ lit '') '' @ ds"
    by (auto simp add: lit_def)
  moreover have "list_all isDigit (takeWhile isDigit p)"
    by (auto simp add: list_all_iff dest: set_takeWhileD)
  ultimately show "spec_numberMarker p"
    unfolding spec_numberMarker_def using t by blast
next
  assume "spec_numberMarker p"
  then obtain digits rest c where g: "digits \<noteq> []" "list_all isDigit digits"
    and c: "c = 0x2E \<or> c = 0x29" and p: "p = digits @ c # 0x20 # rest"
    by (auto simp add: spec_numberMarker_def lit_def)
  from c have n: "\<not> isDigit c"
    by (auto simp add: isDigit_def)
  from g n have "takeWhile isDigit p = digits" "dropWhile isDigit p = c # 0x20 # rest"
    unfolding p by (simp_all add: list_all_iff takeWhile_append2 dropWhile_append2)
  with g c show "startsWithNumber p"
    by (simp add: startsWithNumber_def isSpace_def)
qed

lemma split_whitespace_not_Nil: "split_whitespace s \<noteq> []"
  by (subst split_whitespace.simps) (simp add: Let_def split: list.splits)

lemma length_split_whitespace_Cons:
  "length (split_whitespace (c # cs)) =
     (if isSpace c then Suc (length (split_whitespace (dropWhile isSpace cs)))
      else length (split_whitespace cs))"
  using split_whitespace_not_Nil [of cs] by (cases "split_whitespace cs") (simp_all add: split_whitespace_Cons)

lemma spec_words_skip: "spec_words False (dropWhile isSpace s) = spec_words False s"
  by (induction s) simp_all

lemma spec_words_start:
  "s \<noteq> [] \<Longrightarrow> \<not> isSpace (hd s) \<Longrightarrow> spec_words False s = Suc (spec_words True s)"
  by (cases s) simp_all

lemma length_split_whitespace:
  "length (split_whitespace s) =
     Suc (spec_words True s + (if s \<noteq> [] \<and> isSpace (last s) then 1 else 0))"
proof (induction "length s" arbitrary: s rule: less_induct)
  case less
  show ?case
  proof (cases s)
    case Nil
    then show ?thesis by (simp add: split_whitespace_Nil)
  next
    case (Cons c cs)
    show ?thesis
    proof (cases "isSpace c")
      case False
      have "length cs < length s" using Cons by simp
      from less [OF this] False Cons show ?thesis
        by (simp add: length_split_whitespace_Cons)
    next
      case True
      let ?d = "dropWhile isSpace cs"
      have "length ?d < length s"
        using Cons length_dropWhile_le [of isSpace cs] by simp
      note ih = less [OF this]
      have l: "length (split_whitespace s) = Suc (length (split_whitespace ?d))"
        using Cons True by (simp add: length_split_whitespace_Cons)
      have w: "spec_words True s = spec_words False ?d"
        using Cons True by (simp add: spec_words_skip)
      show ?thesis
      proof (cases "?d = []")
        case e: True
        then have all: "\<forall>x \<in> set cs. isSpace x"
          by (simp add: dropWhile_eq_Nil_conv)
        then have "isSpace (last s)"
          using Cons True by (cases "cs = []") simp_all
        with l w e Cons show ?thesis
          by (simp add: split_whitespace_Nil)
      next
        case ne: False
        then have h: "\<not> isSpace (hd ?d)"
          by (rule hd_dropWhile)
        have "cs = takeWhile isSpace cs @ ?d" by simp
        then have "last cs = last ?d"
          using ne by (metis last_appendR)
        moreover have "cs \<noteq> []" using ne by auto
        ultimately have "last s = last ?d" using Cons by simp
        with l w ih ne spec_words_start [OF ne h] Cons show ?thesis
          by simp
      qed
    qed
  qed
qed

lemma wordCount_trimmed:
  assumes "trimmed p" and "p \<noteq> []"
  shows "length (split_whitespace p) = spec_wordCount p"
  using assms spec_words_start [of p]
  by (simp add: length_split_whitespace trimmed_def spec_wordCount_def)

lemma heading_test:
  "looksLikeHeading text fontSize bodyFontSize \<longleftrightarrow>
     trim text \<noteq> [] \<and> length (trim text) \<le> 90 \<and> \<not> startsWithBullet (trim text) \<and>
     \<not> startsWithNumber (trim text) \<and> 0x09 \<notin> set (trim text) \<and>
     \<not> js_lt (fdiv fontSize (Math_max bodyFontSize (num 1))) (num 1.28) \<and>
     length (split_whitespace (trim text)) \<le> 14"
  by (auto simp add: looksLikeHeading_def Let_def)

lemma heading_text_tests:
  assumes "trim text \<noteq> []" and "plain_spaces text"
  shows "(\<not> startsWithBullet (trim text) \<and> \<not> startsWithNumber (trim text) \<and>
          0x09 \<notin> set (trim text) \<and> length (split_whitespace (trim text)) \<le> 14) \<longleftrightarrow>
         (\<not> spec_bulletMarker (trim text) \<and> \<not> spec_numberMarker (trim text) \<and>
          0x09 \<notin> set (trim text) \<and> spec_wordCount (trim text) \<le> 14)"
  using startsWithBullet_iff [OF plain_spaces_trim [OF assms(2)]]
    startsWithNumber_iff [OF plain_spaces_trim [OF assms(2)]]
    wordCount_trimmed [OF trimmed_trim assms(1)]
  by auto

lemma title_words: "split_whitespace (trim (lit ''Title'')) = [trim (lit ''Title'')]"
  by (rule split_whitespace_word) (simp add: text_tests)

subsection \<open>Separators\<close>

lemma assemble_segment_later:
  "assemble_segment st segment (Suc i) =
     st\<lparr>asm_text := asm_text st
            @ spec_separator (fsub (seg_x segment) (previousEnd st)) (previousCharWidth st)
            @ seg_text segment,
        asm_hasTabs := (asm_hasTabs st \<or>
            spec_separator (fsub (seg_x segment) (previousEnd st)) (previousCharWidth st) = [0x09]),
        previousEnd := fadd (seg_x segment) (seg_width segment),
        previousCharWidth := spec_charWidth segment\<rparr>"
  by (simp add: assemble_segment_def spec_separator_def spec_charWidth_def Let_def)

lemma forEach_segment_tail:
  "previousEnd st = fadd (seg_x prev) (seg_width prev) \<Longrightarrow>
   previousCharWidth st = spec_charWidth prev \<Longrightarrow>
   asm_text (forEach_segment st (Suc i) rest) = asm_text st @ fst (spec_row_tail prev rest) \<and>
   asm_hasTabs (forEach_segment st (Suc i) rest) = (asm_hasTabs st \<or> snd (spec_row_tail prev rest))"
proof (induction rest arbitrary: st prev i)
  case Nil
  then show ?case by simp
next
  case (Cons cur rest)
  let ?st = "assemble_segment st cur (Suc i)"
  have e: "previousEnd ?st = fadd (seg_x cur) (seg_width cur)"
    and w: "previousCharWidth ?st = spec_charWidth cur"
    by (simp_all add: assemble_segment_later)
  from Cons.IH [OF e w, of "Suc i"] Cons.prems show ?case
    by (simp add: assemble_segment_later spec_gap_def Let_def)
qed

lemma assemble_first:
  "assemble_segment assembly_init t 0 =
      \<lparr>asm_text = seg_text t, asm_hasTabs = False,
       previousEnd = fadd (seg_x t) (seg_width t), previousCharWidth = spec_charWidth t\<rparr>"
  by (simp add: assemble_segment_def assembly_init_def spec_charWidth_def)

lemma assemble_row_Cons:
  "asm_text (assemble_row (t # ts)) = seg_text t @ fst (spec_row_tail t ts) \<and>
   asm_hasTabs (assemble_row (t # ts)) = snd (spec_row_tail t ts)"
  using forEach_segment_tail [of "assemble_segment assembly_init t 0" t 0 ts]
  by (simp add: assemble_row_def assemble_first)

lemma rows_to_lines_flags:
  "map (\<lambda>line. (line_text line, hasTabs line)) (rows_to_lines rows) =
     map (\<lambda>(y, segments). (row_text segments, asm_hasTabs (assemble_row segments)))
       (filter (\<lambda>(y, segments). row_text segments \<noteq> []) rows)"
  by (induction rows rule: rows_to_lines.induct) (simp_all add: row_text_def Let_def)

lemma separator_samples:
  "spec_separator (num 20) (num 5) = [0x20]" "spec_separator (num 40) (num 5) = [0x09]"
  "spec_separator (fsub (num 76.25) (fadd (num 0) (num 61))) (fdiv (num 61) (num 7)) = [0x20]"
  by (simp_all add: spec_separator_def Math_max_def js_gt_def fsub_def num_eval)

lemma sample_segments:
  "spec_charWidth \<lparr>seg_text = lit ''ab'', seg_x = num 0, seg_width = num 10, seg_fontSize = num 12\<rparr>
     = num 5"
  "spec_gap \<lparr>seg_text = lit ''ab'', seg_x = num 0, seg_width = num 10, seg_fontSize = num 12\<rparr>
     \<lparr>seg_text = lit ''cd'', seg_x = num 30, seg_width = num 10, seg_fontSize = num 12\<rparr> = num 20"
  "spec_gap \<lparr>seg_text = lit ''ab'', seg_x = num 0, seg_width = num 10, seg_fontSize = num 12\<rparr>
     \<lparr>seg_text = lit ''cd'', seg_x = num 50, seg_width = num 10, seg_fontSize = num 12\<rparr> = num 40"
  "spec_charWidth \<lparr>seg_text = lit ''abcdefg'', seg_x = num 0, seg_width = num 61, seg_fontSize = num 12\<rparr>
     = fdiv (num 61) (num 7)"
  "spec_gap \<lparr>seg_text = lit ''abcdefg'', seg_x = num 0, seg_width = num 61, seg_fontSize = num 12\<rparr>
     \<lparr>seg_text = lit ''h'', seg_x = num 76.25, seg_width = num 10, seg_fontSize = num 12\<rparr>
     = fsub (num 76.25) (fadd (num 0) (num 61))"
  by (simp_all add: spec_charWidth_def spec_gap_def fsub_def lit_def num_eval)

lemma sample_row_text:
  "row_text [\<lparr>seg_text = lit ''ab'', seg_x = num 0, seg_width = num 10, seg_fontSize = num 12\<rparr>,
             \<lparr>seg_text = lit ''cd'', seg_x = num 50, seg_width = num 10, seg_fontSize = num 12\<rparr>]
     = lit ''ab'' @ [0x09] @ lit ''cd''"
  unfolding row_text_def
  using assemble_row_Cons [of "\<lparr>seg_text = lit ''ab'', seg_x = num 0, seg_width = num 10, seg_fontSize = num 12\<rparr>"
      "[\<lparr>seg_text = lit ''cd'', seg_x = num 50, seg_width = num 10, seg_fontSize = num 12\<rparr>]"]
    sample_segments(1,3) separator_samples(2)
  by (simp add: Let_def lit_def strip_trailing_blanks_def isBlank_def)

text \<open>
  Claim C4. In the text assembled for a row, each segment after the first is preceded by
  the separator decided from \<open>gap = currentX - previousEnd\<close> and the character width of
  the segment to its left: a tab when \<open>gap > max(24, previousCharWidth * 6)\<close>, else one
  space when \<open>gap > max(6, previousCharWidth * 1.75)\<close>, else nothing, all in binary64. The
  flag of the row is set exactly when some separator of the row is a tab, and the line
  built from the row carries that flag as its \<^verbatim>\<open>hasTabs\<close>, beside the text of the row.
  With a previous character width of 5, a gap of 20 gives one space and a gap of 40 gives
  a tab. After a segment of 7 characters and width 61 that starts at 0, a segment at 76.25
  gets a space: the threshold \<open>61 / 7 * 1.75\<close> is rounded to a value below the gap of
  15.25.
\<close>

theorem gap_separator:
  "asm_text (assemble_row (s # rest)) = seg_text s @ fst (spec_row_tail s rest) \<and>
   asm_hasTabs (assemble_row (s # rest)) = snd (spec_row_tail s rest) \<and>
   map (\<lambda>line. (line_text line, hasTabs line)) (rows_to_lines rows) =
     map (\<lambda>(y, segments). (row_text segments, asm_hasTabs (assemble_row segments)))
       (filter (\<lambda>(y, segments). row_text segments \<noteq> []) rows) \<and>
   spec_separator (num 20) (num 5) = [0x20] \<and> spec_separator (num 40) (num 5) = [0x09] \<and>
   (spec_charWidth p = num 5 \<and> spec_gap p c = num 20 \<longrightarrow>
      asm_text (assemble_row [p, c]) = seg_text p @ [0x20] @ seg_text c \<and>
      \<not> asm_hasTabs (assemble_row [p, c])) \<and>
   (spec_charWidth p = num 5 \<and> spec_gap p c = num 40 \<longrightarrow>
      asm_text (assemble_row [p, c]) = seg_text p @ [0x09] @ seg_text c \<and>
      asm_hasTabs (assemble_row [p, c])) \<and>
   spec_separator (fsub (num 76.25) (fadd (num 0) (num 61))) (fdiv (num 61) (num 7)) = [0x20]"
proof -
  note sp = separator_samples
  have a: "asm_text (assemble_row [p, c]) = seg_text p @ [0x20] @ seg_text c \<and>
      \<not> asm_hasTabs (assemble_row [p, c])"
    if "spec_charWidth p = num 5 \<and> spec_gap p c = num 20"
    using assemble_row_Cons [of p "[c]"] that sp(1) by (simp add: Let_def)
  have b: "asm_text (assemble_row [p, c]) = seg_text p @ [0x09] @ seg_text c \<and>
      asm_hasTabs (assemble_row [p, c])"
    if "spec_charWidth p = num 5 \<and> spec_gap p c = num 40"
    using assemble_row_Cons [of p "[c]"] that sp(2) by (simp add: Let_def)
  from assemble_row_Cons [of s rest] rows_to_lines_flags [of rows] sp a b show ?thesis
    by blast
qed

theorem gap_separator_witness:
  "asm_text (assemble_row [\<lparr>seg_text = lit ''ab'', seg_x = num 0, seg_width = num 10, seg_fontSize = num 12\<rparr>,
                           \<lparr>seg_text = lit ''cd'', seg_x = num 30, seg_width = num 10, seg_fontSize = num 12\<rparr>])
     = lit ''ab cd'' \<and>
   asm_text (assemble_row [\<lparr>seg_text = lit ''ab'', seg_x = num 0, seg_width = num 10, seg_fontSize = num 12\<rparr>,
                           \<lparr>seg_text = lit ''cd'', seg_x = num 50, seg_width = num 10, seg_fontSize = num 12\<rparr>])
     = lit ''ab'' @ [0x09] @ lit ''cd'' \<and>
   asm_hasTabs (assemble_row [\<lparr>seg_text = lit ''ab'', seg_x = num 0, seg_width = num 10, seg_fontSize = num 12\<rparr>,
                           \<lparr>seg_text = lit ''cd'', seg_x = num 50, seg_width = num 10, seg_fontSize = num 12\<rparr>]) \<and>
   asm_text (assemble_row [\<lparr>seg_text = lit ''abcdefg'', seg_x = num 0, seg_width = num 61, seg_fontSize = num 12\<rparr>,
                           \<lparr>seg_text = lit ''h'', seg_x = num 76.25, seg_width = num 10, seg_fontSize = num 12\<rparr>])
     = lit ''abcdefg h'' \<and>
   map (\<lambda>line. (line_text line, hasTabs line))
     (rows_to_lines
        [(num 700, [\<lparr>seg_text = lit ''ab'', seg_x = num 0, seg_width = num 10, seg_fontSize = num 12\<rparr>,
                    \<lparr>seg_text = lit ''cd'', seg_x = num 50, seg_width = num 10, seg_fontSize = num 12\<rparr>])])
     = [(lit ''ab'' @ [0x09] @ lit ''cd'', True)]"
proof -
  let ?ab = "\<lparr>seg_text = lit ''ab'', seg_x = num 0, seg_width = num 10, seg_fontSize = num 12\<rparr>"
  let ?cd30 = "\<lparr>seg_text = lit ''cd'', seg_x = num 30, seg_width = num 10, seg_fontSize = num 12\<rparr>"
  let ?cd50 = "\<lparr>seg_text = lit ''cd'', seg_x = num 50, seg_width = num 10, seg_fontSize = num 12\<rparr>"
  let ?a7 = "\<lparr>seg_text = lit ''abcdefg'', seg_x = num 0, seg_width = num 61, seg_fontSize = num 12\<rparr>"
  let ?h = "\<lparr>seg_text = lit ''h'', seg_x = num 76.25, seg_width = num 10, seg_fontSize = num 12\<rparr>"
  have 1: "asm_text (assemble_row [?ab, ?cd30]) = lit ''ab cd''"
    using gap_separator [of ?ab "[]" "[]" ?ab ?cd30] sample_segments(1,2) by (simp add: lit_def)
  have 2: "asm_text (assemble_row [?ab, ?cd50]) = lit ''ab'' @ [0x09] @ lit ''cd'' \<and>
      asm_hasTabs (assemble_row [?ab, ?cd50])"
    using gap_separator [of ?ab "[]" "[]" ?ab ?cd50] sample_segments(1,3) by (simp add: lit_def)
  have 3: "asm_text (assemble_row [?a7, ?h]) = lit ''abcdefg h''"
    using gap_separator [of ?a7 "[?h]" "[]" ?ab ?cd50] sample_segments(4,5)
    by (simp add: lit_def Let_def)
  have 4: "map (\<lambda>line. (line_text line, hasTabs line)) (rows_to_lines [(num 700, [?ab, ?cd50])])
      = [(lit ''ab'' @ [0x09] @ lit ''cd'', True)]"
    using gap_separator [of ?ab "[]" "[(num 700, [?ab, ?cd50])]" ?ab ?cd50] 2 sample_row_text
    by (simp add: lit_def)
  from 1 2 3 4 show ?thesis by blast
qed

subsection \<open>The text of a line\<close>

text \<open>
  What the assembler hands on: the text of a segment has no white space at its ends and
  none but the space inside; the text of a line has no white space at its ends and none
  but the space and the tab inside; and the text that \<^verbatim>\<open>linesToMarkdown\<close> passes to the
  heading test, the list marker normalised, is not blank and has no other white space
  either.
\<close>

lemma set_replace_runs: "set (replace_runs n p r s) \<subseteq> set s \<union> set r"
proof (induction n p r s rule: replace_runs.induct)
  case (1 n p r)
  then show ?case by simp
next
  case (2 n p r c cs)
  show ?case
  proof (cases "p c")
    case True
    have "set (takeWhile p cs) \<subseteq> set cs" by (auto dest: set_takeWhileD)
    moreover have "set (dropWhile p cs) \<subseteq> set cs" by (auto dest: set_dropWhileD)
    moreover note 2(1) [OF True refl]
    ultimately show ?thesis using True by (auto simp add: Let_def)
  next
    case False
    with 2(2) [OF False] show ?thesis by auto
  qed
qed

lemma spaces_replace_runs:
  "c \<in> set (replace_runs 1 isSpace [0x20] s) \<Longrightarrow> isSpace c \<Longrightarrow> c = 0x20"
proof (induction "1::nat" isSpace "[0x20::nat]" s rule: replace_runs.induct)
  case 1
  then show ?case by simp
next
  case (2 d ds)
  then show ?case by (auto simp add: Let_def split: if_splits)
qed

lemma last_replace_runs:
  "s \<noteq> [] \<Longrightarrow> \<not> p (last s) \<Longrightarrow>
     replace_runs n p r s \<noteq> [] \<and> last (replace_runs n p r s) = last s"
proof (induction n p r s rule: replace_runs.induct)
  case (1 n p r)
  then show ?case by simp
next
  case (2 n p r c cs)
  show ?case
  proof (cases "p c")
    case True
    with 2(4) have cs: "cs \<noteq> []" by auto
    with 2(4) have l: "\<not> p (last cs)" by simp
    have d: "dropWhile p cs \<noteq> []"
      using cs l by (auto simp add: dropWhile_eq_Nil_conv)
    have dl: "last (dropWhile p cs) = last cs"
      using d by (rule dropWhile_suffix_last)
    from 2(1) [OF True refl d] l dl
    have "replace_runs n p r (dropWhile p cs) \<noteq> [] \<and>
        last (replace_runs n p r (dropWhile p cs)) = last cs"
      by simp
    with True cs show ?thesis by (simp add: Let_def)
  next
    case False
    show ?thesis
    proof (cases "cs = []")
      case True
      with False show ?thesis by simp
    next
      case ne: False
      with 2(4) have "\<not> p (last cs)" by simp
      from 2(2) [OF False ne this] False ne show ?thesis by simp
    qed
  qed
qed

lemma hd_replace_runs:
  "s \<noteq> [] \<Longrightarrow> \<not> p (hd s) \<Longrightarrow> hd (replace_runs n p r s) = hd s"
  by (cases s) simp_all

lemma trim_Nil_iff: "trim x = [] \<longleftrightarrow> (\<forall>c \<in> set x. isSpace c)"
proof
  assume "trim x = []"
  then have a: "\<forall>c \<in> set (dropWhile isSpace x). isSpace c"
    by (simp add: trim_def dropWhile_eq_Nil_conv)
  have "dropWhile isSpace x = []"
  proof (rule ccontr)
    assume n: "dropWhile isSpace x \<noteq> []"
    then have "\<not> isSpace (hd (dropWhile isSpace x))" by (rule hd_dropWhile)
    moreover have "hd (dropWhile isSpace x) \<in> set (dropWhile isSpace x)"
      using n by simp
    ultimately show False using a by blast
  qed
  then show "\<forall>c \<in> set x. isSpace c"
    by (simp add: dropWhile_eq_Nil_conv)
next
  assume "\<forall>c \<in> set x. isSpace c"
  then have "dropWhile isSpace x = []"
    by (induction x) simp_all
  then show "trim x = []"
    unfolding trim_def by (simp only: rev.simps dropWhile.simps)
qed

lemma item_text_shaped: "item_text rawItem \<noteq> [] \<Longrightarrow> run_shaped (item_text rawItem)"
proof -
  assume n: "item_text rawItem \<noteq> []"
  have "\<forall>c \<in> set (item_text rawItem). isSpace c \<longrightarrow> c = 0x20"
    using set_trim [of "replace_runs 1 isSpace [0x20] (str rawItem)"] spaces_replace_runs
    unfolding item_text_def by blast
  moreover have "trimmed (item_text rawItem)"
    unfolding item_text_def by (rule trimmed_trim)
  ultimately show ?thesis using n by (simp add: run_shaped_def list_all_iff)
qed

lemma rowMap_push_shaped:
  assumes "\<forall>(y, segments) \<in> set m. segments \<noteq> [] \<and> (\<forall>s \<in> set segments. run_shaped (seg_text s))"
    and "run_shaped (seg_text segment)"
  shows "\<forall>(y, segments) \<in> set (rowMap_push m yKey segment).
           segments \<noteq> [] \<and> (\<forall>s \<in> set segments. run_shaped (seg_text s))"
proof (cases "yKey \<in> set (map fst m)")
  case True
  show ?thesis
  proof (intro ballI)
    fix e
    assume "e \<in> set (rowMap_push m yKey segment)"
    with True obtain y segments where m: "(y, segments) \<in> set m"
      and e: "e = (if y = yKey then (y, segments @ [segment]) else (y, segments))"
      by (auto simp add: rowMap_push_def)
    from assms(1) m have "segments \<noteq> [] \<and> (\<forall>s \<in> set segments. run_shaped (seg_text s))"
      by blast
    with e assms(2) show "case e of (y, segments) \<Rightarrow>
        segments \<noteq> [] \<and> (\<forall>s \<in> set segments. run_shaped (seg_text s))"
      by auto
  qed
next
  case False
  with assms show ?thesis
    by (simp add: rowMap_push_def)
qed

lemma collect_rows_shaped:
  "\<forall>(y, segments) \<in> set m. segments \<noteq> [] \<and> (\<forall>s \<in> set segments. run_shaped (seg_text s)) \<Longrightarrow>
   \<forall>(y, segments) \<in> set (collect_rows items m).
      segments \<noteq> [] \<and> (\<forall>s \<in> set segments. run_shaped (seg_text s))"
proof (induction items arbitrary: m)
  case Nil
  then show ?case by simp
next
  case (Cons rawItem items)
  show ?case
  proof (cases "item_text rawItem = []")
    case True
    with Cons show ?thesis by simp
  next
    case False
    then have "run_shaped (seg_text (item_segment rawItem))"
      using item_text_shaped by (simp add: item_segment_def Let_def)
    from Cons.IH [OF rowMap_push_shaped [OF Cons.prems this]] False show ?thesis
      by simp
  qed
qed

lemma sorted_rows_shaped:
  assumes "\<forall>(y, segments) \<in> set m. segments \<noteq> [] \<and> (\<forall>s \<in> set segments. run_shaped (seg_text s))"
  shows "\<forall>(y, segments) \<in> set (sorted_rows m).
           segments \<noteq> [] \<and> (\<forall>s \<in> set segments. run_shaped (seg_text s))"
proof -
  have "js_sort c xs \<noteq> []" if "xs \<noteq> []" for c :: "PdfTextSegment \<Rightarrow> PdfTextSegment \<Rightarrow> number" and xs
    using that length_js_sort [of c xs] by (cases "js_sort c xs") auto
  with assms show ?thesis
    by (auto simp add: sorted_rows_def set_js_sort)
qed

lemma separator_blank: "set (spec_separator gap charWidth) \<subseteq> {0x20, 0x09}"
  by (auto simp add: spec_separator_def)

lemma run_line_shaped: "run_shaped t \<Longrightarrow> line_shaped t"
  by (auto simp add: run_shaped_def line_shaped_def plain_spaces_def list_all_iff)

lemma line_shaped_append:
  assumes "line_shaped a" and "set sep \<subseteq> {0x20, 0x09}" and "line_shaped u"
  shows "line_shaped (a @ sep @ u)"
proof -
  from assms(1,3) have ne: "a \<noteq> []" "u \<noteq> []"
    by (simp_all add: line_shaped_def)
  then have "hd (a @ sep @ u) = hd a" "last (a @ sep @ u) = last u"
    by simp_all
  with assms ne show ?thesis
    by (auto simp add: line_shaped_def trimmed_def plain_spaces_def list_all_iff)
qed

lemma row_tail_shaped:
  "run_shaped (seg_text s) \<Longrightarrow> \<forall>t \<in> set rest. run_shaped (seg_text t) \<Longrightarrow>
     line_shaped (seg_text s @ fst (spec_row_tail s rest))"
proof (induction rest arbitrary: s)
  case Nil
  then show ?case by (simp add: run_line_shaped)
next
  case (Cons cur rest)
  from Cons.prems have "line_shaped (seg_text cur @ fst (spec_row_tail cur rest))"
    by (intro Cons.IH) simp_all
  from line_shaped_append [OF run_line_shaped [OF Cons.prems(1)] separator_blank this]
  show ?case by (simp add: Let_def)
qed

lemma strip_trailing_blanks_shaped: "line_shaped t \<Longrightarrow> strip_trailing_blanks t = t"
proof -
  assume a: "line_shaped t"
  then have "rev t \<noteq> []" and "\<not> isSpace (last t)"
    by (auto simp add: line_shaped_def trimmed_def)
  then have "\<not> isBlank (hd (rev t))"
    by (auto simp add: hd_rev isBlank_def isSpace_def)
  with \<open>rev t \<noteq> []\<close> have "dropWhile isBlank (rev t) = rev t"
    by (cases "rev t") simp_all
  then show ?thesis by (simp add: strip_trailing_blanks_def)
qed

lemma collapse_shaped:
  assumes "line_shaped t"
  shows "line_shaped (replace_runs 2 (\<lambda>c. c = 0x20) [0x20] t)"
proof -
  let ?r = "replace_runs 2 (\<lambda>c. c = 0x20) [0x20] t"
  from assms have ne: "t \<noteq> []" and h: "\<not> isSpace (hd t)" and l: "\<not> isSpace (last t)"
    by (auto simp add: line_shaped_def trimmed_def)
  have s: "isSpace 0x20" by (simp add: isSpace_def)
  from h s have h': "\<not> hd t = 0x20" by auto
  from l s have l': "\<not> last t = 0x20" by auto
  from last_replace_runs [of t "\<lambda>c. c = 0x20", OF ne l']
  have 1: "?r \<noteq> []" "last ?r = last t" by simp_all
  from hd_replace_runs [of t "\<lambda>c. c = 0x20", OF ne h']
  have 2: "hd ?r = hd t" .
  have 3: "set ?r \<subseteq> set t \<union> {0x20}"
    using set_replace_runs [of 2 "\<lambda>c. c = 0x20" "[0x20]" t] by simp
  from assms have "\<forall>c \<in> set t. isSpace c \<longrightarrow> c = 0x20 \<or> c = 0x09"
    by (simp add: line_shaped_def plain_spaces_def list_all_iff)
  with 3 have "\<forall>c \<in> set ?r. isSpace c \<longrightarrow> c = 0x20 \<or> c = 0x09"
    by auto
  with 1 2 h l show ?thesis
    by (simp add: line_shaped_def trimmed_def plain_spaces_def list_all_iff)
qed

lemma row_text_shaped:
  assumes "segments \<noteq> []" and "\<forall>s \<in> set segments. run_shaped (seg_text s)"
  shows "line_shaped (row_text segments)"
proof -
  from assms(1) obtain s rest where c: "segments = s # rest"
    by (cases segments) auto
  with assms(2) have "line_shaped (seg_text s @ fst (spec_row_tail s rest))"
    by (intro row_tail_shaped) simp_all
  then have a: "line_shaped (asm_text (assemble_row segments))"
    by (simp add: c assemble_row_Cons)
  show ?thesis
    unfolding row_text_def strip_trailing_blanks_shaped [OF a] using a by (rule collapse_shaped)
qed

lemma rows_to_lines_text:
  assumes "line \<in> set (rows_to_lines rows)"
  shows "\<exists>(y, segments) \<in> set rows. line_text line = row_text segments"
proof -
  from assms have "(line_text line, hasTabs line)
      \<in> set (map (\<lambda>line. (line_text line, hasTabs line)) (rows_to_lines rows))"
    by (simp add: image_iff) blast
  then show ?thesis
    unfolding rows_to_lines_flags by auto
qed

lemma extracted_line_shaped:
  assumes "line \<in> set (extractLinesFromPdfTextContent items)"
  shows "line_shaped (line_text line)"
proof -
  have "\<forall>(y, segments) \<in> set ([] :: rowMap).
      segments \<noteq> [] \<and> (\<forall>s \<in> set segments. run_shaped (seg_text s))"
    by simp
  from sorted_rows_shaped [OF collect_rows_shaped [OF this, of items]]
  have r: "\<forall>(y, segments) \<in> set (sorted_rows (collect_rows items [])).
      segments \<noteq> [] \<and> (\<forall>s \<in> set segments. run_shaped (seg_text s))" .
  from rows_to_lines_text [OF assms [unfolded extractLinesFromPdfTextContent_def]]
  obtain y segments where "(y, segments) \<in> set (sorted_rows (collect_rows items []))"
    and t: "line_text line = row_text segments"
    by auto
  with r have "segments \<noteq> []" "\<forall>s \<in> set segments. run_shaped (seg_text s)"
    by auto
  then show ?thesis
    unfolding t by (rule row_text_shaped)
qed

lemma normalized_shaped:
  assumes "line_shaped t"
  shows "trim (normalizeListPrefix (trim t)) \<noteq> [] \<and> plain_spaces (normalizeListPrefix (trim t))"
proof -
  from assms have tt: "trim t = t"
    by (simp add: line_shaped_def trim_trimmed)
  from assms obtain c cs where t: "t = c # cs" and c: "\<not> isSpace c"
    by (cases t) (auto simp add: line_shaped_def trimmed_def)
  from assms have p: "\<forall>x \<in> set t. isSpace x \<longrightarrow> x = 0x20 \<or> x = 0x09"
    by (simp add: line_shaped_def plain_spaces_def list_all_iff)
  define u where "u = replace_bullet_glyph t"
  have u: "(\<exists>x \<in> set u. \<not> isSpace x) \<and> (\<forall>x \<in> set u. isSpace x \<longrightarrow> x = 0x20 \<or> x = 0x09)"
  proof (cases "isBulletGlyph c")
    case True
    then have "u = lit ''- '' @ dropWhile isSpace cs"
      by (simp add: u_def replace_bullet_glyph_def t)
    moreover have "set (dropWhile isSpace cs) \<subseteq> set t"
      using t by (auto dest: set_dropWhileD)
    moreover have "\<not> isSpace 0x2D"
      by (simp add: isSpace_def)
    ultimately show ?thesis using p by (auto simp add: lit_def)
  next
    case False
    then have "u = t" by (simp add: u_def replace_bullet_glyph_def t)
    with p c t show ?thesis by auto
  qed
  define v where "v = replace_parenthesised_number u"
  have v: "(\<exists>x \<in> set v. \<not> isSpace x) \<and> (\<forall>x \<in> set v. isSpace x \<longrightarrow> x = 0x20 \<or> x = 0x09)"
  proof (cases "v = u")
    case True
    with u show ?thesis by simp
  next
    case False
    obtain d ds where ud: "u = d # ds"
      using False by (cases u) (auto simp add: v_def replace_parenthesised_number_def)
    have dg: "takeWhile isDigit ds \<noteq> []"
      using False by (auto simp add: v_def replace_parenthesised_number_def ud)
    obtain x e es where dr: "dropWhile isDigit ds = x # e # es"
    proof (cases "dropWhile isDigit ds")
      case Nil
      from False show ?thesis
        by (simp add: v_def replace_parenthesised_number_def ud Nil split: if_splits)
    next
      case outer: (Cons x r)
      show ?thesis
      proof (cases r)
        case Nil
        from False show ?thesis
          by (simp add: v_def replace_parenthesised_number_def ud outer Nil split: if_splits)
      next
        case (Cons e es)
        with outer that show ?thesis by blast
      qed
    qed
    have ve: "v = takeWhile isDigit ds @ lit ''. '' @ dropWhile isSpace es"
      using False dr by (auto simp add: v_def replace_parenthesised_number_def ud split: if_splits)
    from dg obtain g where g: "g \<in> set (takeWhile isDigit ds)"
      by (cases "takeWhile isDigit ds") auto
    then have "isDigit g" by (auto dest: set_takeWhileD)
    then have "\<not> isSpace g" by (auto simp add: isDigit_def isSpace_def)
    with g ve have 1: "\<exists>x \<in> set v. \<not> isSpace x" by auto
    have "set (dropWhile isSpace es) \<subseteq> set es" by (auto dest: set_dropWhileD)
    moreover have "set es \<subseteq> set (dropWhile isDigit ds)" using dr by auto
    moreover have "set (dropWhile isDigit ds) \<subseteq> set ds" by (auto dest: set_dropWhileD)
    moreover have "set (takeWhile isDigit ds) \<subseteq> set ds" by (auto dest: set_takeWhileD)
    ultimately have "set v \<subseteq> set u \<union> {0x2E, 0x20}"
      unfolding ve ud by (auto simp add: lit_def)
    moreover have "\<not> isSpace 0x2E"
      by (simp add: isSpace_def)
    ultimately have "\<forall>x \<in> set v. isSpace x \<longrightarrow> x = 0x20 \<or> x = 0x09"
      using u by blast
    with 1 show ?thesis by simp
  qed
  have "normalizeListPrefix (trim t) = v"
    by (simp add: normalizeListPrefix_def tt v_def u_def)
  with v show ?thesis
    by (simp add: trim_Nil_iff plain_spaces_def list_all_iff)
qed

lemma rendered_text_shaped:
  assumes "line \<in> set (extractLinesFromPdfTextContent items)"
  shows "trim (normalizeListPrefix (trim (line_text line))) \<noteq> [] \<and>
         plain_spaces (normalizeListPrefix (trim (line_text line)))"
  using normalized_shaped [OF extracted_line_shaped [OF assms]] .

subsection \<open>The heading test\<close>

lemma ratio_12_8: "fdiv (num 12.8) (Math_max (num 10) (num 1)) = num 1.28"
  by (simp add: Math_max_def num_eval)

lemma ratio_12_79: "js_lt (fdiv (num 12.79) (Math_max (num 10) (num 1))) (num 1.28)"
  by (simp add: Math_max_def num_eval)

lemma js_ge_num: "js_ge (num a) (num a)"
  by (simp add: js_ge_def js_le_def num_not_NaN)

lemma level_bounds:
  "\<not> js_ge (num 1.94999) (num 1.95)" "js_ge (num 1.94999) (num 1.65)"
  "\<not> js_ge (num 1.65) (num 1.95)" "\<not> js_ge (num 1.64999) (num 1.95)"
  "\<not> js_ge (num 1.64999) (num 1.65)" "js_ge (num 1.95) (num 1.65)"
  by (simp_all add: js_ge_def js_le_def num_eval)

lemma binary64_quotients:
  "fdiv (num 7.68) (Math_max (num 6) (num 1)) = num 1.28"
  "js_lt (fdiv (num 18.56) (Math_max (num 14.5) (num 1))) (num 1.28)"
  "fdiv (num 13.2) (Math_max (num 8) (num 1)) = num 1.65"
  "fdiv (num 11.7) (Math_max (num 6) (num 1)) = num 1.95"
  by (simp_all add: Math_max_def num_eval)

lemma heading_levels_at_1:
  "fdiv (num 1.95) (Math_max (num 1) (num 1)) = num 1.95"
  "fdiv (num 1.94999) (Math_max (num 1) (num 1)) = num 1.94999"
  "fdiv (num 1.65) (Math_max (num 1) (num 1)) = num 1.65"
  "fdiv (num 1.64999) (Math_max (num 1) (num 1)) = num 1.64999"
  by (simp_all add: Math_max_def num_eval)

lemma sample_texts:
  "trim (lit ''Title'') \<noteq> []" "plain_spaces (lit ''Title'')"
  "trim (lit ''- item'') \<noteq> []" "plain_spaces (lit ''- item'')"
  "trim (lit ''12. item'') \<noteq> []" "plain_spaces (lit ''12. item'')"
  "trim (lit ''a b c d e f g h i j k l m n o'') \<noteq> []"
  "plain_spaces (lit ''a b c d e f g h i j k l m n o'')"
  by (simp_all add: text_tests plain_spaces_def)

lemma sample_markers:
  "spec_bulletMarker (trim (lit ''- item''))"
  "spec_numberMarker (trim (lit ''12. item''))"
  "spec_wordCount (trim (lit ''a b c d e f g h i j k l m n o'')) = 15"
proof -
  show "spec_bulletMarker (trim (lit ''- item''))"
    by (simp add: spec_bulletMarker_def text_tests)
  have "trim (lit ''12. item'') = lit ''12'' @ lit ''. '' @ lit ''item''"
    by (simp add: text_tests)
  moreover have "lit ''12'' \<noteq> [] \<and> list_all isDigit (lit ''12'')"
    by (simp add: text_tests)
  ultimately show "spec_numberMarker (trim (lit ''12. item''))"
    unfolding spec_numberMarker_def by blast
  show "spec_wordCount (trim (lit ''a b c d e f g h i j k l m n o'')) = 15"
    by (simp add: spec_wordCount_def text_tests)
qed

lemma title_12_8: "looksLikeHeading (lit ''Title'') (num 12.8) (num 10)"
proof -
  have "\<not> js_lt (num 1.28) (num 1.28)"
    by (cases "num 1.28 :: number") simp_all
  then show ?thesis
    unfolding heading_test ratio_12_8 title_words by (simp add: text_tests)
qed

lemma half_quotients:
  "fdiv (num 1) (num 0.5) = num 2" "Math_max (num 0.5) (num 1) = num 1"
  "fdiv (num 1) (num 1) = num 1" "js_ge (num 2) (num 1.28)" "js_lt (num 1) (num 1.28)"
  "js_ge (num 2) (num 1.95)" "\<not> js_ge (num 1) (num 1.95)" "\<not> js_ge (num 1) (num 1.65)"
  by (simp_all add: Math_max_def js_ge_def js_le_def num_eval)

lemma clamp_samples:
  "js_lt (num (1 / 4)) (num 1)" "js_ge (num 10) (num 1)" "fdiv (num 20) (num 10) = num 2"
  "fdiv (num 2) (Math_max (num 1) (num 1)) = num 2" "fdiv (num 20) (num 10) \<noteq> NaN"
  by (simp_all add: Math_max_def js_ge_def js_le_def num_eval)

lemma blank_counterexample:
  "spec_looksLikeHeading [] (num 20) (num 10)" "\<not> looksLikeHeading [] (num 20) (num 10)"
proof -
  have "js_ge (fdiv (num 20) (num 10)) (num 1.28)"
    by (simp add: js_ge_def js_le_def num_eval)
  then show "spec_looksLikeHeading [] (num 20) (num 10)"
    unfolding spec_looksLikeHeading_def
    by (simp add: trim_def startsWithBullet_def startsWithNumber_def split_whitespace_Nil)
  show "\<not> looksLikeHeading [] (num 20) (num 10)"
    by (simp add: heading_test trim_def)
qed

lemma nbsp_counterexample:
  "\<not> spec_bulletMarker ([0x2D, 0xA0] @ lit ''x'')"
  "\<not> spec_numberMarker ([0x2D, 0xA0] @ lit ''x'')"
  "spec_wordCount ([0x2D, 0xA0] @ lit ''x'') = 2"
  "trim ([0x2D, 0xA0] @ lit ''x'') = [0x2D, 0xA0] @ lit ''x''"
  "\<not> looksLikeHeading ([0x2D, 0xA0] @ lit ''x'') (num 20) (num 10)"
proof -
  show "\<not> spec_bulletMarker ([0x2D, 0xA0] @ lit ''x'')"
    by (simp add: spec_bulletMarker_def lit_def)
  show "\<not> spec_numberMarker ([0x2D, 0xA0] @ lit ''x'')"
    by (auto simp add: spec_numberMarker_def lit_def Cons_eq_append_conv isDigit_def)
  show "spec_wordCount ([0x2D, 0xA0] @ lit ''x'') = 2"
    by (simp add: spec_wordCount_def lit_def isSpace_def)
  show t: "trim ([0x2D, 0xA0] @ lit ''x'') = [0x2D, 0xA0] @ lit ''x''"
    by (simp add: text_tests)
  show "\<not> looksLikeHeading ([0x2D, 0xA0] @ lit ''x'') (num 20) (num 10)"
    unfolding heading_test t by (simp add: text_tests)
qed

lemma js_lt_NaN: "\<not> js_lt a NaN" "\<not> js_lt NaN a"
  by (cases a; simp)+

lemma nan_counterexample:
  "looksLikeHeading (lit ''Title'') PosInf PosInf"
  "\<not> js_ge (fdiv PosInf (Math_max PosInf (num 1))) (num 1.28)"
  "\<not> js_ge (fdiv PosInf PosInf) (num 1.28)"
proof -
  have m: "Math_max PosInf (num 1) = PosInf"
    by (simp add: Math_max_def num_1)
  show "looksLikeHeading (lit ''Title'') PosInf PosInf"
    unfolding heading_test m title_words by (simp add: text_tests)
  show "\<not> js_ge (fdiv PosInf (Math_max PosInf (num 1))) (num 1.28)"
    unfolding m by (simp add: js_ge_def js_le_def js_lt_NaN)
  show "\<not> js_ge (fdiv PosInf PosInf) (num 1.28)"
    by (simp add: js_ge_def js_le_def js_lt_NaN)
qed

text \<open>
  Claim C3, as amended. For the text of a line (not blank, its white space being spaces
  and tabs only) and a quotient \<open>fontSize / max(bodyFontSize, 1)\<close> that is a number, the
  line qualifies as a heading exactly when its trimmed text has at most 90 characters,
  starts with no bullet marker (\<^verbatim>\<open>"- "\<close> or \<^verbatim>\<open>"* "\<close>) and no numbered-list marker,
  holds no tab, has at most 14 words, and that quotient, computed in binary64, is at least
  1.28. The level is 1 when the quotient is at least 1.95, 2 when it is at least 1.65, and
  3 otherwise; the quotients 1.95, 1.94999, 1.65 and 1.64999 give the levels 1, 2, 2 and
  3. With a body font size of 10, a font size of 12.8 qualifies (the text permitting) and
  12.79 never does. The quotients are those of binary64: 7.68 over 6 reaches 1.28,
  18.56 over 14.5 stays below it, 13.2 over 8 reaches 1.65 and 11.7 over 6 reaches 1.95.
  Every text that \<^verbatim>\<open>linesToMarkdown\<close> passes to the test is of the kind supposed
  (lemma \<open>rendered_text_shaped\<close>).
\<close>

theorem looksLikeHeading_iff:
  "(trim text \<noteq> [] \<and> plain_spaces text \<and>
    fdiv fontSize (Math_max bodyFontSize (num 1)) \<noteq> NaN \<longrightarrow>
      (looksLikeHeading text fontSize bodyFontSize \<longleftrightarrow>
         length (trim text) \<le> 90 \<and>
         \<not> spec_bulletMarker (trim text) \<and>
         \<not> spec_numberMarker (trim text) \<and>
         0x09 \<notin> set (trim text) \<and>
         js_ge (fdiv fontSize (Math_max bodyFontSize (num 1))) (num 1.28) \<and>
         spec_wordCount (trim text) \<le> 14)) \<and>
   headingLevel fontSize bodyFontSize =
     (if js_ge (fdiv fontSize (Math_max bodyFontSize (num 1))) (num 1.95) then 1
      else if js_ge (fdiv fontSize (Math_max bodyFontSize (num 1))) (num 1.65) then 2
      else 3) \<and>
   (fdiv fontSize (Math_max bodyFontSize (num 1)) = num 1.95 \<longrightarrow>
      headingLevel fontSize bodyFontSize = 1) \<and>
   (fdiv fontSize (Math_max bodyFontSize (num 1)) = num 1.94999 \<longrightarrow>
      headingLevel fontSize bodyFontSize = 2) \<and>
   (fdiv fontSize (Math_max bodyFontSize (num 1)) = num 1.65 \<longrightarrow>
      headingLevel fontSize bodyFontSize = 2) \<and>
   (fdiv fontSize (Math_max bodyFontSize (num 1)) = num 1.64999 \<longrightarrow>
      headingLevel fontSize bodyFontSize = 3) \<and>
   (trim text \<noteq> [] \<and> plain_spaces text \<longrightarrow>
      (looksLikeHeading text (num 12.8) (num 10) \<longleftrightarrow>
         length (trim text) \<le> 90 \<and>
         \<not> spec_bulletMarker (trim text) \<and>
         \<not> spec_numberMarker (trim text) \<and>
         0x09 \<notin> set (trim text) \<and>
         spec_wordCount (trim text) \<le> 14)) \<and>
   \<not> looksLikeHeading text (num 12.79) (num 10) \<and>
   looksLikeHeading (lit ''Title'') (num 7.68) (num 6) \<and>
   \<not> looksLikeHeading (lit ''Title'') (num 18.56) (num 14.5) \<and>
   headingLevel (num 13.2) (num 8) = 2 \<and> headingLevel (num 11.7) (num 6) = 1"
proof -
  let ?ratio = "fdiv fontSize (Math_max bodyFontSize (num 1))"
  have general: "looksLikeHeading text fontSize bodyFontSize \<longleftrightarrow>
         length (trim text) \<le> 90 \<and> \<not> spec_bulletMarker (trim text) \<and>
         \<not> spec_numberMarker (trim text) \<and> 0x09 \<notin> set (trim text) \<and>
         js_ge ?ratio (num 1.28) \<and> spec_wordCount (trim text) \<le> 14"
    if h: "trim text \<noteq> []" "plain_spaces text" "?ratio \<noteq> NaN"
    using ratio_test [OF h(3)] heading_text_tests [OF h(1,2)] h(1)
    unfolding heading_test by blast
  have level: "headingLevel fontSize bodyFontSize =
     (if js_ge ?ratio (num 1.95) then 1 else if js_ge ?ratio (num 1.65) then 2 else 3)"
    by (simp add: headingLevel_def Let_def)
  have l1: "headingLevel fontSize bodyFontSize = 1" if "?ratio = num 1.95"
    unfolding level that using js_ge_num [of "1.95"] by simp
  have l2: "headingLevel fontSize bodyFontSize = 2" if "?ratio = num 1.94999"
    unfolding level that using level_bounds by simp
  have l3: "headingLevel fontSize bodyFontSize = 2" if "?ratio = num 1.65"
    unfolding level that using level_bounds js_ge_num [of "1.65"] by simp
  have l4: "headingLevel fontSize bodyFontSize = 3" if "?ratio = num 1.64999"
    unfolding level that using level_bounds by simp
  have at10: "looksLikeHeading text (num 12.8) (num 10) \<longleftrightarrow>
         length (trim text) \<le> 90 \<and> \<not> spec_bulletMarker (trim text) \<and>
         \<not> spec_numberMarker (trim text) \<and> 0x09 \<notin> set (trim text) \<and>
         spec_wordCount (trim text) \<le> 14"
    if h: "trim text \<noteq> []" "plain_spaces text"
  proof -
    have "\<not> js_lt (num 1.28) (num 1.28)"
      by (cases "num 1.28 :: number") simp_all
    with heading_text_tests [OF h] h(1) show ?thesis
      unfolding heading_test ratio_12_8 by blast
  qed
  have below: "\<not> looksLikeHeading text (num 12.79) (num 10)"
    unfolding heading_test using ratio_12_79 by simp
  have not_lt: "\<not> js_lt (num 1.28) (num 1.28)"
    by (cases "num 1.28 :: number") simp_all
  have t1: "looksLikeHeading (lit ''Title'') (num 7.68) (num 6)"
    unfolding heading_test binary64_quotients title_words using not_lt
    by (simp add: text_tests)
  have t2: "\<not> looksLikeHeading (lit ''Title'') (num 18.56) (num 14.5)"
    unfolding heading_test using binary64_quotients(2) by simp
  have t3: "headingLevel (num 13.2) (num 8) = 2" "headingLevel (num 11.7) (num 6) = 1"
    unfolding headingLevel_def Let_def binary64_quotients
    using level_bounds js_ge_num [of "1.65"] js_ge_num [of "1.95"] by simp_all
  from general level l1 l2 l3 l4 at10 below t1 t2 t3 show ?thesis
    by blast
qed

theorem looksLikeHeading_iff_witness:
  "looksLikeHeading (lit ''Title'') (num 12.8) (num 10) \<and>
   \<not> spec_bulletMarker (trim (lit ''Title'')) \<and>
   \<not> spec_numberMarker (trim (lit ''Title'')) \<and>
   spec_wordCount (trim (lit ''Title'')) \<le> 14 \<and>
   spec_bulletMarker (trim (lit ''- item'')) \<and>
   \<not> looksLikeHeading (lit ''- item'') (num 12.8) (num 10) \<and>
   spec_numberMarker (trim (lit ''12. item'')) \<and>
   \<not> looksLikeHeading (lit ''12. item'') (num 12.8) (num 10) \<and>
   spec_wordCount (trim (lit ''a b c d e f g h i j k l m n o'')) = 15 \<and>
   \<not> looksLikeHeading (lit ''a b c d e f g h i j k l m n o'') (num 12.8) (num 10) \<and>
   \<not> looksLikeHeading (lit ''Title'') (num 12.79) (num 10) \<and>
   headingLevel (num 1.95) (num 1) = 1 \<and> headingLevel (num 1.94999) (num 1) = 2 \<and>
   headingLevel (num 1.65) (num 1) = 2 \<and> headingLevel (num 1.64999) (num 1) = 3"
proof -
  note t = looksLikeHeading_iff [of "lit ''Title''"]
  note b = looksLikeHeading_iff [of "lit ''- item''"]
  note n = looksLikeHeading_iff [of "lit ''12. item''"]
  note w = looksLikeHeading_iff [of "lit ''a b c d e f g h i j k l m n o''"]
  have 1: "\<not> spec_bulletMarker (trim (lit ''Title'')) \<and>
      \<not> spec_numberMarker (trim (lit ''Title'')) \<and> spec_wordCount (trim (lit ''Title'')) \<le> 14"
    using t sample_texts(1,2) title_12_8 by blast
  have 2: "\<not> looksLikeHeading (lit ''- item'') (num 12.8) (num 10)"
    using b sample_texts(3,4) sample_markers(1) by blast
  have 3: "\<not> looksLikeHeading (lit ''12. item'') (num 12.8) (num 10)"
    using n sample_texts(5,6) sample_markers(2) by blast
  have 4: "\<not> looksLikeHeading (lit ''a b c d e f g h i j k l m n o'') (num 12.8) (num 10)"
    using w sample_texts(7,8) sample_markers(3) by simp
  have 5: "\<not> looksLikeHeading (lit ''Title'') (num 12.79) (num 10)"
    using t by blast
  have 6: "headingLevel (num 1.95) (num 1) = 1"
    using looksLikeHeading_iff [of _ "num 1.95" "num 1"]
      heading_levels_at_1(1) by blast
  have 7: "headingLevel (num 1.94999) (num 1) = 2"
    using looksLikeHeading_iff [of _ "num 1.94999" "num 1"]
      heading_levels_at_1(2) by blast
  have 8: "headingLevel (num 1.65) (num 1) = 2"
    using looksLikeHeading_iff [of _ "num 1.65" "num 1"]
      heading_levels_at_1(3) by blast
  have 9: "headingLevel (num 1.64999) (num 1) = 3"
    using looksLikeHeading_iff [of _ "num 1.64999" "num 1"]
      heading_levels_at_1(4) by blast
  from title_12_8 1 sample_markers 2 3 4 5 6 7 8 9 show ?thesis
    by blast
qed

text \<open>
  Claim C3 as it was stated, on the plain quotient \<open>fontSize / bodyFontSize\<close>, fails
  below a body font size of 1: with font size 1 over body font size 0.5 the quotient is 2,
  yet the code, dividing by 1, sees no heading and would give level 3. It also fails where
  the text is not its trimmed text: \<^verbatim>\<open>"- "\<close>, which a row holding one bullet glyph
  becomes, starts with a bullet marker, yet the code tests \<^verbatim>\<open>"-"\<close> and sees a heading.
  Outside the texts and font sizes of the amended claim it fails as well: the empty text
  passes every test of the claim and is no heading for the code; a hyphen, a no-break
  space and a letter start with no marker of the claim and are no heading for the code,
  which takes any white space after the hyphen; and with both font sizes infinite the
  quotient is NaN, not at least 1.28, and the code sees a heading.
\<close>

theorem heading_ratio_counterexample:
  "spec_looksLikeHeading (lit ''Title'') (num 1) (num 0.5) \<and>
   \<not> looksLikeHeading (lit ''Title'') (num 1) (num 0.5) \<and>
   spec_headingLevel (num 1) (num 0.5) = 1 \<and> headingLevel (num 1) (num 0.5) = 3 \<and>
   normalizeListPrefix (trim [0x2022]) = lit ''- '' \<and> spec_bulletMarker (lit ''- '') \<and>
   looksLikeHeading (lit ''- '') (num 24) (num 12) \<and>
   spec_looksLikeHeading [] (num 20) (num 10) \<and> \<not> looksLikeHeading [] (num 20) (num 10) \<and>
   \<not> spec_bulletMarker ([0x2D, 0xA0] @ lit ''x'') \<and>
   \<not> spec_numberMarker ([0x2D, 0xA0] @ lit ''x'') \<and>
   spec_wordCount ([0x2D, 0xA0] @ lit ''x'') = 2 \<and>
   \<not> looksLikeHeading ([0x2D, 0xA0] @ lit ''x'') (num 20) (num 10) \<and>
   looksLikeHeading (lit ''Title'') PosInf PosInf \<and>
   \<not> js_ge (fdiv PosInf PosInf) (num 1.28)"
proof -
  have "spec_looksLikeHeading (lit ''Title'') (num 1) (num 0.5)"
    unfolding spec_looksLikeHeading_def half_quotients title_words
    using half_quotients(4) by (simp add: text_tests)
  moreover have "\<not> looksLikeHeading (lit ''Title'') (num 1) (num 0.5)"
    unfolding heading_test half_quotients using half_quotients(5) by simp
  moreover have "spec_headingLevel (num 1) (num 0.5) = 1"
    unfolding spec_headingLevel_def half_quotients using half_quotients(6) by simp
  moreover have "headingLevel (num 1) (num 0.5) = 3"
    unfolding headingLevel_def Let_def half_quotients using half_quotients(7,8) by simp
  moreover have "normalizeListPrefix (trim [0x2022]) = lit ''- ''"
    by (simp add: normalizeListPrefix_def replace_bullet_glyph_def replace_parenthesised_number_def
        isBulletGlyph_def text_tests)
  moreover have "spec_bulletMarker (lit ''- '')"
    unfolding spec_bulletMarker_def by (rule exI [of _ "[]"]) simp
  moreover have "looksLikeHeading (lit ''- '') (num 24) (num 12)"
  proof -
    have t: "trim (lit ''- '') = [0x2D]"
      by (simp add: text_tests)
    have w: "split_whitespace [0x2D] = [[0x2D]]"
      by (rule split_whitespace_word) (simp add: isSpace_def)
    have "\<not> js_lt (fdiv (num 24) (Math_max (num 12) (num 1))) (num 1.28)"
      by (simp add: Math_max_def num_eval)
    then show ?thesis
      unfolding heading_test t w by (simp add: text_tests)
  qed
  moreover note blank_counterexample nbsp_counterexample(1,2,3,5) nan_counterexample(1,3)
  ultimately show ?thesis by blast
qed

text \<open>
  Claim C10. The heading test and the heading level divide by \<open>max(bodyFontSize, 1)\<close>:
  for a body font size below 1 both behave as for a body font size of 1, and from 1
  upwards both are what the plain quotient \<open>fontSize / bodyFontSize\<close> gives (for the
  test, when that quotient is a number: the code rejects a quotient below 1.28, and NaN is
  not below it).
\<close>

theorem heading_clamp:
  "(js_lt bodyFontSize (num 1) \<longrightarrow>
      looksLikeHeading text fontSize bodyFontSize = looksLikeHeading text fontSize (num 1) \<and>
      headingLevel fontSize bodyFontSize = headingLevel fontSize (num 1)) \<and>
   (js_ge bodyFontSize (num 1) \<longrightarrow>
      (fdiv fontSize bodyFontSize \<noteq> NaN \<longrightarrow>
         (looksLikeHeading text fontSize bodyFontSize \<longleftrightarrow>
            trim text \<noteq> [] \<and> spec_looksLikeHeading text fontSize bodyFontSize)) \<and>
      headingLevel fontSize bodyFontSize = spec_headingLevel fontSize bodyFontSize)"
proof -
  have below: "looksLikeHeading text fontSize bodyFontSize = looksLikeHeading text fontSize (num 1) \<and>
      headingLevel fontSize bodyFontSize = headingLevel fontSize (num 1)"
    if "js_lt bodyFontSize (num 1)"
  proof -
    have "Math_max (num 1) (num 1) = num 1"
      by (simp add: Math_max_def num_1)
    with Math_max_below [OF that] show ?thesis
      by (simp add: looksLikeHeading_def headingLevel_def)
  qed
  have level: "headingLevel fontSize bodyFontSize = spec_headingLevel fontSize bodyFontSize"
    if "js_ge bodyFontSize (num 1)"
    using Math_max_above [OF that] by (simp add: headingLevel_def spec_headingLevel_def)
  have test: "looksLikeHeading text fontSize bodyFontSize \<longleftrightarrow>
            trim text \<noteq> [] \<and> spec_looksLikeHeading text fontSize bodyFontSize"
    if "js_ge bodyFontSize (num 1)" and r: "fdiv fontSize bodyFontSize \<noteq> NaN"
    using ratio_test [OF r] unfolding heading_test spec_looksLikeHeading_def
      Math_max_above [OF that(1)] by blast
  from below level test show ?thesis by blast
qed

theorem heading_clamp_witness:
  "js_lt (num (1 / 4)) (num 1) \<and> \<not> looksLikeHeading (lit ''Title'') (num 1) (num (1 / 4)) \<and>
   \<not> looksLikeHeading (lit ''Title'') (num 1) (num 1) \<and>
   headingLevel (num 2) (num (1 / 4)) = 1 \<and> headingLevel (num 2) (num 1) = 1 \<and>
   js_ge (num 10) (num 1) \<and> looksLikeHeading (lit ''Title'') (num 20) (num 10) \<and>
   spec_looksLikeHeading (lit ''Title'') (num 20) (num 10) \<and>
   headingLevel (num 20) (num 10) = 1 \<and> spec_headingLevel (num 20) (num 10) = 1"
proof -
  have a: "\<not> looksLikeHeading (lit ''Title'') (num 1) (num 1)"
    unfolding heading_test using half_quotients(2,3,5) by (simp add: Math_max_def num_1)
  have b: "headingLevel (num 2) (num 1) = 1"
    unfolding headingLevel_def Let_def clamp_samples using half_quotients(6) by simp
  have c: "spec_looksLikeHeading (lit ''Title'') (num 20) (num 10)"
    unfolding spec_looksLikeHeading_def clamp_samples title_words
    using half_quotients(4) by (simp add: text_tests)
  have d: "spec_headingLevel (num 20) (num 10) = 1"
    unfolding spec_headingLevel_def clamp_samples using half_quotients(6) by simp
  have e: "trim (lit ''Title'') \<noteq> []"
    by (simp add: text_tests)
  from heading_clamp [of "num (1 / 4)" "lit ''Title''" "num 1"]
    heading_clamp [of "num (1 / 4)" "lit ''Title''" "num 2"]
    heading_clamp [of "num 10" "lit ''Title''" "num 20"] a b c d e clamp_samples(1,2,5)
  show ?thesis by simp
qed

subsection \<open>The page limit\<close>

text \<open>
  Claim C7. A document of more than 100 pages fails with \<open>PageLimitExceeded\<close>, carrying
  its page count and the limit 100, and no page's text content has been asked for; for
  101 pages the error is \<open>PageLimitExceeded 101 100\<close>.
\<close>

theorem page_limit:
  "numPages pdf > 100 \<Longrightarrow>
     pdfToMarkdown pdf = (Inl (PageLimitExceeded (numPages pdf) 100), []) \<and>
     (numPages pdf = 101 \<longrightarrow> fst (pdfToMarkdown pdf) = Inl (PageLimitExceeded 101 100))"
  by (simp add: pdfToMarkdown_def MAX_PDF_PAGES_def)

theorem page_limit_witness:
  "numPages \<lparr>numPages = 101, getTextContent = (\<lambda>pageNo. Some [])\<rparr> > 100 \<and>
   pdfToMarkdown \<lparr>numPages = 101, getTextContent = (\<lambda>pageNo. Some [])\<rparr>
     = (Inl (PageLimitExceeded 101 100), [])"
  using page_limit [of "\<lparr>numPages = 101, getTextContent = (\<lambda>pageNo. Some [])\<rparr>"]
  by simp

subsection \<open>Documents without text\<close>

lemma whitespace_item_text:
  assumes "list_all isSpace (str rawItem)"
  shows "item_text rawItem = []"
proof (cases "str rawItem")
  case Nil
  then show ?thesis by (simp add: item_text_def trim_def)
next
  case (Cons c cs)
  with assms have run: "isSpace c" "takeWhile isSpace cs = cs" "dropWhile isSpace cs = []"
    by (simp_all add: list_all_iff)
  have space: "isSpace 0x20" by (simp add: isSpace_def)
  show ?thesis
    by (simp add: item_text_def trim_def Cons run space)
qed

lemma collect_rows_whitespace:
  "collect_rows items m =
     collect_rows (filter (\<lambda>rawItem. \<not> list_all isSpace (str rawItem)) items) m"
  by (induction items arbitrary: m) (simp_all add: whitespace_item_text)

lemma extract_whitespace:
  "\<forall>rawItem \<in> set items. list_all isSpace (str rawItem) \<Longrightarrow>
     extractLinesFromPdfTextContent items = []"
proof -
  assume "\<forall>rawItem \<in> set items. list_all isSpace (str rawItem)"
  then have "filter (\<lambda>rawItem. \<not> list_all isSpace (str rawItem)) items = []"
    by (simp add: filter_empty_conv)
  then have "collect_rows items [] = []"
    using collect_rows_whitespace [of items "[]"] by simp
  then show ?thesis
    by (simp add: extractLinesFromPdfTextContent_def sorted_rows_def js_sort_def)
qed

lemma read_pages_empty:
  "\<forall>pageNo \<in> set pageNos. \<exists>items. getTextContent pdf pageNo = Some items \<and>
       extractLinesFromPdfTextContent items = [] \<Longrightarrow>
   read_pages pdf pageNos pages requested =
     (Inr (pages @ replicate (length pageNos) []), requested @ pageNos)"
proof (induction pageNos arbitrary: pages requested)
  case Nil
  then show ?case by simp
next
  case (Cons pageNo later)
  then obtain items where "getTextContent pdf pageNo = Some items"
    and "extractLinesFromPdfTextContent items = []"
    by auto
  moreover have "read_pages pdf later (pages @ [[]]) (requested @ [pageNo]) =
      (Inr ((pages @ [[]]) @ replicate (length later) []), (requested @ [pageNo]) @ later)"
    using Cons.prems by (intro Cons.IH) simp
  ultimately show ?case
    by (simp add: replicate_app_Cons_same)
qed

text \<open>
  Claim C6, as amended. For a document of at most 100 pages whose every page holds only
  empty or whitespace-only text runs, every page yields no line and the engine fails with
  \<open>NoExtractableText\<close>, after asking for each page in order. On any page, the
  whitespace-only runs become no segment: the lines are those of the page without them.
\<close>

theorem no_extractable_text:
  assumes "numPages pdf \<le> 100"
    and "\<forall>pageNo \<in> {1..numPages pdf}. \<exists>items. getTextContent pdf pageNo = Some items \<and>
           (\<forall>rawItem \<in> set items. list_all isSpace (str rawItem))"
  shows "pdfToMarkdown pdf = (Inl NoExtractableText, [1..<Suc (numPages pdf)]) \<and>
     (\<forall>pageNo \<in> {1..numPages pdf}.
        \<exists>items. getTextContent pdf pageNo = Some items \<and>
          extractLinesFromPdfTextContent items = []) \<and>
     extractLinesFromPdfTextContent anyItems =
       extractLinesFromPdfTextContent
         (filter (\<lambda>rawItem. \<not> list_all isSpace (str rawItem)) anyItems)"
proof -
  have pages: "\<forall>pageNo \<in> {1..numPages pdf}.
        \<exists>items. getTextContent pdf pageNo = Some items \<and>
          extractLinesFromPdfTextContent items = []"
    using assms(2) extract_whitespace by blast
  then have "\<forall>pageNo \<in> set [1..<Suc (numPages pdf)].
        \<exists>items. getTextContent pdf pageNo = Some items \<and>
          extractLinesFromPdfTextContent items = []"
    by auto
  then have "read_pages pdf [1..<Suc (numPages pdf)] [] [] =
      (Inr ([] @ replicate (length [1..<Suc (numPages pdf)]) []), [] @ [1..<Suc (numPages pdf)])"
    by (rule read_pages_empty)
  with assms(1) have "pdfToMarkdown pdf = (Inl NoExtractableText, [1..<Suc (numPages pdf)])"
    by (simp add: pdfToMarkdown_def MAX_PDF_PAGES_def)
  moreover have "extractLinesFromPdfTextContent anyItems =
       extractLinesFromPdfTextContent
         (filter (\<lambda>rawItem. \<not> list_all isSpace (str rawItem)) anyItems)"
    using collect_rows_whitespace [of anyItems "[]"]
    by (simp add: extractLinesFromPdfTextContent_def)
  ultimately show ?thesis using pages by blast
qed

theorem no_extractable_text_witness:
  "pdfToMarkdown
     \<lparr>numPages = 2,
      getTextContent = (\<lambda>pageNo. Some [\<lparr>str = lit ''  '', transform = [num 12, num 0, num 0, num 12, num 72, num 700],
                                           width = num 8, height = num 12\<rparr>,
                                         \<lparr>str = [], transform = [], width = num 0, height = num 0\<rparr>])\<rparr>
   = (Inl NoExtractableText, [1, 2])"
proof -
  let ?pdf = "\<lparr>numPages = 2,
      getTextContent = (\<lambda>pageNo. Some [\<lparr>str = lit ''  '', transform = [num 12, num 0, num 0, num 12, num 72, num 700],
                                           width = num 8, height = num 12\<rparr>,
                                         \<lparr>str = [], transform = [], width = num 0, height = num 0\<rparr>])\<rparr>"
  have a: "numPages ?pdf \<le> 100" by simp
  have b: "\<forall>pageNo \<in> {1..numPages ?pdf}. \<exists>items. getTextContent ?pdf pageNo = Some items \<and>
           (\<forall>rawItem \<in> set items. list_all isSpace (str rawItem))"
    by (simp add: lit_def isSpace_def)
  have c: "[1..<Suc (numPages ?pdf)] = [1, 2]"
    by (simp add: upt_rec)
  from no_extractable_text [OF a b] c show ?thesis by simp
qed

text \<open>
  Claim C6 as it was stated covers every document of whitespace-only pages, whatever its
  page count. A document of 101 such pages fails with \<open>PageLimitExceeded\<close> instead: the
  page count is tested first.
\<close>

theorem no_extractable_text_counterexample:
  "pdfToMarkdown
     \<lparr>numPages = 101,
      getTextContent = (\<lambda>pageNo. Some [\<lparr>str = lit ''  '', transform = [num 12, num 0, num 0, num 12, num 72, num 700],
                                           width = num 8, height = num 12\<rparr>])\<rparr>
   = (Inl (PageLimitExceeded 101 100), []) \<and>
   fst (pdfToMarkdown
     \<lparr>numPages = 101,
      getTextContent = (\<lambda>pageNo. Some [\<lparr>str = lit ''  '', transform = [num 12, num 0, num 0, num 12, num 72, num 700],
                                           width = num 8, height = num 12\<rparr>])\<rparr>)
   \<noteq> Inl NoExtractableText"
  by (simp add: pdfToMarkdown_def MAX_PDF_PAGES_def)

subsection \<open>Tables\<close>

lemma trimmed_escape_pipes: "trimmed t \<Longrightarrow> trimmed (escape_pipes t)"
proof (cases t)
  case Nil
  then show ?thesis by (simp add: trimmed_def)
next
  case (Cons c cs)
  assume "trimmed t"
  with Cons have h: "\<not> isSpace c" and l: "\<not> isSpace (last t)"
    by (simp_all add: trimmed_def)
  have b: "\<not> isSpace 0x5C" by (simp add: isSpace_def)
  have "\<not> isSpace (hd (escape_pipes t))" using h b Cons by simp
  moreover have "\<not> isSpace (last (escape_pipes t))"
    using l Cons last_escape_pipes [of t] by simp
  ultimately show ?thesis by (simp add: trimmed_def)
qed

lemma trim_escape_pipes_trim: "trim (escape_pipes (trim cell)) = escape_pipes (trim cell)"
  by (intro trim_trimmed trimmed_escape_pipes trimmed_trim)

lemma pipes_escaped_iff:
  "pipes_escaped s \<longleftrightarrow> (\<forall>i < length s. s ! i = 0x7C \<longrightarrow> 0 < i \<and> s ! (i - 1) = 0x5C)"
  by (auto simp: pipes_escaped_def list_all_iff)

lemma pipes_escaped_escape_pipes: "pipes_escaped (escape_pipes t)"
proof -
  have "\<forall>i < length (escape_pipes t).
      escape_pipes t ! i = 0x7C \<longrightarrow> 0 < i \<and> escape_pipes t ! (i - 1) = 0x5C"
  proof (induction t)
    case Nil
    then show ?case by simp
  next
    case (Cons c cs)
    show ?case
    proof (intro allI impI)
      fix i
      assume i: "i < length (escape_pipes (c # cs))"
        and b: "escape_pipes (c # cs) ! i = 0x7C"
      show "0 < i \<and> escape_pipes (c # cs) ! (i - 1) = 0x5C"
      proof (cases "c = 0x7C")
        case True
        then show ?thesis
          using i b Cons.IH
          by (cases i; cases "i - 1") (auto simp: nth_Cons')
      next
        case False
        then show ?thesis
          using i b Cons.IH
          by (cases i; cases "i - 1") (auto simp: nth_Cons')
      qed
    qed
  qed
  then show ?thesis by (simp add: pipes_escaped_iff)
qed

lemma spec_rows:
  "map (\<lambda>line. splitTabbedColumns (line_text line)) block = map spec_cells block"
  by (simp add: splitTabbedColumns_def spec_cells_def)

lemma normalized_cells:
  "map (\<lambda>cell. trim (escape_pipes cell)) (spec_cells line) = map escape_pipes (spec_cells line)"
  by (simp add: spec_cells_def trim_escape_pipes_trim)

lemma cells_le_maxCols:
  "line \<in> set block \<Longrightarrow> length (spec_cells line) \<le> spec_maxCols block"
  by (simp add: spec_maxCols_def spec_cellCounts_def)

lemma padded_row:
  assumes "line \<in> set block"
  shows "take (spec_maxCols block)
           (map escape_pipes (spec_cells line)
            @ replicate (spec_maxCols block - length (spec_cells line)) [])
         = spec_padded_cells (spec_maxCols block) line"
    and "length (spec_padded_cells (spec_maxCols block) line) = spec_maxCols block"
  using cells_le_maxCols [OF assms] by (simp_all add: spec_padded_cells_def)

lemma padded_row_escaped:
  "list_all pipes_escaped (spec_padded_cells cols line)"
proof -
  have "pipes_escaped []" by (simp add: pipes_escaped_def)
  then show ?thesis
    by (auto simp: spec_padded_cells_def list_all_iff pipes_escaped_escape_pipes)
qed

lemma accepted_iff:
  "spec_accepted block \<longleftrightarrow>
     \<not> length block < 2 \<and>
     \<not> (int (Max (set (map length (map spec_cells block)))) < 2 \<or>
        int (Max (set (map length (map spec_cells block))))
          - int (Min (set (map length (map spec_cells block)))) > 1)"
proof -
  have "map length (map spec_cells block) = spec_cellCounts block"
    by (simp add: spec_cellCounts_def)
  then show ?thesis
    unfolding spec_accepted_def spec_maxCols_def spec_minCols_def by (simp only:) linarith
qed

lemma table_accepted:
  assumes a: "spec_accepted block"
  shows "tabbedBlockToMarkdownTable block = spec_table block"
proof -
  from a have "\<not> length block < 2 \<and>
      \<not> (int (Max (set (map length (map spec_cells block)))) < 2 \<or>
        int (Max (set (map length (map spec_cells block))))
          - int (Min (set (map length (map spec_cells block)))) > 1)"
    by (rule accepted_iff [THEN iffD1])
  then have len: "\<not> length block < 2"
    and cols: "\<not> (int (Max (set (map length (map spec_cells block)))) < 2 \<or>
        int (Max (set (map length (map spec_cells block))))
          - int (Min (set (map length (map spec_cells block)))) > 1)"
    by blast+
  have m: "nat (int (Max (set (map length (map spec_cells block))))) = spec_maxCols block"
    by (simp add: spec_maxCols_def spec_cellCounts_def)
  have padded: "map (\<lambda>row. take (spec_maxCols block)
                      (map (\<lambda>cell. trim (escape_pipes cell)) row
                       @ replicate (spec_maxCols block - length row) []))
                  (map spec_cells block)
                = map (spec_padded_cells (spec_maxCols block)) block"
  proof -
    have "map (\<lambda>row. take (spec_maxCols block)
                      (map (\<lambda>cell. trim (escape_pipes cell)) row
                       @ replicate (spec_maxCols block - length row) []))
                  (map spec_cells block)
          = map (\<lambda>line. take (spec_maxCols block)
                   (map escape_pipes (spec_cells line)
                    @ replicate (spec_maxCols block - length (spec_cells line)) []))
              block"
      by (simp only: map_map o_def normalized_cells)
    also have "\<dots> = map (spec_padded_cells (spec_maxCols block)) block"
      by (rule map_cong [OF refl]) (rule padded_row(1))
    finally show ?thesis .
  qed
  from len obtain first others where b: "block = first # others"
    by (cases block) auto
  have "tabbedBlockToMarkdownTable block =
      pipe_row (map (spec_padded_cells (spec_maxCols block)) block ! 0)
      # pipe_row (replicate (spec_maxCols block) (lit ''---''))
      # map pipe_row (drop 1 (map (spec_padded_cells (spec_maxCols block)) block))"
    unfolding tabbedBlockToMarkdownTable_def spec_rows
    by (simp only: Let_def length_map len cols if_False m padded)
  also have "\<dots> = spec_table block"
    by (simp add: spec_table_def b)
  finally show ?thesis .
qed


lemma split_char_not_Nil: "split_char d s \<noteq> []"
  by (subst split_char.simps) (simp add: Let_def split: list.splits)

lemma join_Cons: "join sep (p # ps) = (if ps = [] then p else p @ sep @ join sep ps)"
  by (cases ps) simp_all

lemma join_split_char: "join [d] (split_char d t) = t"
proof (induction t)
  case Nil
  then show ?case by (simp add: split_char_Nil)
next
  case (Cons c cs)
  obtain h r where s: "split_char d cs = h # r"
    using split_char_not_Nil [of d cs] by (cases "split_char d cs") auto
  with Cons show ?case
    by (simp add: split_char_Cons join_Cons split: if_splits)
qed

lemma split_char_pieces: "piece \<in> set (split_char d t) \<Longrightarrow> d \<notin> set piece"
proof (induction t arbitrary: piece)
  case Nil
  then show ?case by (simp add: split_char_Nil)
next
  case (Cons c cs)
  obtain h r where s: "split_char d cs = h # r"
    using split_char_not_Nil [of d cs] by (cases "split_char d cs") auto
  have "d \<notin> set h" and "\<And>q. q \<in> set r \<Longrightarrow> d \<notin> set q"
    using Cons.IH s by simp_all
  with Cons.prems s show ?case
    by (auto simp add: split_char_Cons split: if_splits)
qed

lemma trim_between:
  "\<exists>before after. s = before @ trim s @ after \<and> list_all isSpace before \<and> list_all isSpace after"
proof -
  let ?u = "dropWhile isSpace s"
  have "trim s @ rev (takeWhile isSpace (rev ?u))
      = rev (takeWhile isSpace (rev ?u) @ dropWhile isSpace (rev ?u))"
    by (simp only: trim_def rev_append)
  also have "\<dots> = rev (rev ?u)"
    by (simp only: takeWhile_dropWhile_id)
  also have "\<dots> = ?u"
    by (simp only: rev_rev_ident)
  finally have u: "?u = trim s @ rev (takeWhile isSpace (rev ?u))"
    by (rule sym)
  have "s = takeWhile isSpace s @ ?u" by simp
  with u have "s = takeWhile isSpace s @ trim s @ rev (takeWhile isSpace (rev ?u))"
    by simp
  moreover have "list_all isSpace (takeWhile isSpace s)"
    by (auto simp add: list_all_iff dest: set_takeWhileD)
  moreover have "list_all isSpace (rev (takeWhile isSpace (rev ?u)))"
    by (auto simp add: list_all_iff dest: set_takeWhileD)
  ultimately show ?thesis by blast
qed

lemma tabs_to_space_Cons:
  "replace_runs 1 (\<lambda>c. c = 0x09) [0x20] (c # cs) =
     (if c = 0x09 then 0x20 # replace_runs 1 (\<lambda>c. c = 0x09) [0x20] (dropWhile (\<lambda>c. c = 0x09) cs)
      else c # replace_runs 1 (\<lambda>c. c = 0x09) [0x20] cs)"
  by (simp add: Let_def)

lemma collapse_spaces_Cons:
  "replace_runs 2 (\<lambda>c. c = 0x20) [0x20] (c # cs) =
     c # replace_runs 2 (\<lambda>c. c = 0x20) [0x20] (if c = 0x20 then dropWhile (\<lambda>c. c = 0x20) cs else cs)"
proof (cases "c = 0x20")
  case True
  show ?thesis
  proof (cases "takeWhile (\<lambda>c. c = 0x20) cs")
    case Nil
    with True show ?thesis by (simp add: Let_def)
  next
    case (Cons a as)
    with True show ?thesis by (simp add: Let_def)
  qed
next
  case False
  then show ?thesis by simp
qed

lemma spec_flat_skip_tabs: "spec_flat True (dropWhile (\<lambda>c. c = 0x09) s) = spec_flat True s"
  by (induction s) simp_all

lemma flattened_passes:
  "replace_runs 2 (\<lambda>c. c = 0x20) [0x20]
     (dropWhile (\<lambda>c. c = 0x20) (replace_runs 1 (\<lambda>c. c = 0x09) [0x20] u)) = spec_flat True u \<and>
   replace_runs 2 (\<lambda>c. c = 0x20) [0x20] (replace_runs 1 (\<lambda>c. c = 0x09) [0x20] u)
     = spec_flat False u"
proof (induction "length u" arbitrary: u rule: less_induct)
  case less
  show ?case
  proof (cases u)
    case Nil
    then show ?thesis by simp
  next
    case (Cons c cs)
    have cs: "length cs < length u" using Cons by simp
    have ds: "length (dropWhile (\<lambda>c. c = 0x09) cs) < length u"
      using Cons length_dropWhile_le [of "\<lambda>c. c = 0x09" cs] by simp
    note a = less [OF cs] and b = less [OF ds]
    consider "c = 0x09" | "c = 0x20" | "c \<noteq> 0x09 \<and> c \<noteq> 0x20" by blast
    then show ?thesis
    proof cases
      case 1
      with b show ?thesis
        unfolding Cons tabs_to_space_Cons
        by (simp add: collapse_spaces_Cons spec_flat_skip_tabs del: replace_runs.simps)
    next
      case 2
      with a show ?thesis
        unfolding Cons tabs_to_space_Cons
        by (simp add: collapse_spaces_Cons del: replace_runs.simps)
    next
      case 3
      with a show ?thesis
        unfolding Cons tabs_to_space_Cons
        by (simp add: collapse_spaces_Cons del: replace_runs.simps)
    qed
  qed
qed

lemma spec_flat_ends:
  "t \<noteq> [] \<Longrightarrow> \<not> isSpace (last t) \<Longrightarrow>
     spec_flat b t \<noteq> [] \<and> last (spec_flat b t) = last t"
proof (induction t arbitrary: b)
  case Nil
  then show ?case by simp
next
  case (Cons c cs)
  have s: "isSpace 0x20" "isSpace 0x09" by (simp_all add: isSpace_def)
  show ?case
  proof (cases "cs = []")
    case True
    with Cons.prems s show ?thesis by auto
  next
    case False
    with Cons.prems have "\<not> isSpace (last cs)" by simp
    from Cons.IH [OF False this] False show ?thesis by simp
  qed
qed

lemma spec_flat_trimmed:
  assumes "trimmed t"
  shows "trim (spec_flat False t) = spec_flat False t"
proof (cases t)
  case Nil
  then show ?thesis by (simp add: trim_def)
next
  case (Cons c cs)
  with assms have h: "\<not> isSpace c" and l: "\<not> isSpace (last t)"
    by (simp_all add: trimmed_def)
  have s: "isSpace 0x20" "isSpace 0x09" by (simp_all add: isSpace_def)
  from h s have "hd (spec_flat False t) = c" unfolding Cons by auto
  moreover from spec_flat_ends [of t False] l Cons
  have "spec_flat False t \<noteq> []" "last (spec_flat False t) = last t" by simp_all
  ultimately have "trimmed (spec_flat False t)"
    using h l by (simp add: trimmed_def)
  then show ?thesis by (rule trim_trimmed)
qed

lemma fallback_flattened:
  "fallbackTabbedBlock block = map (\<lambda>line. normalizeListPrefix (trim (spec_flattened line))) block"
  by (simp only: fallbackTabbedBlock_def spec_flattened_def flattened_passes)

lemma fallback_trimmed:
  "\<forall>line \<in> set block. trimmed (line_text line) \<Longrightarrow>
     fallbackTabbedBlock block = map (\<lambda>line. normalizeListPrefix (spec_flattened line)) block"
  unfolding fallback_flattened by (rule map_cong [OF refl]) (simp add: spec_flattened_def spec_flat_trimmed)

lemma rejected_fallback:
  "\<not> spec_accepted block \<Longrightarrow> tabbedBlockToMarkdownTable block = fallbackTabbedBlock block"
proof -
  assume r: "\<not> spec_accepted block"
  show ?thesis
  proof (cases "length block < 2")
    case True
    then show ?thesis
      by (simp add: tabbedBlockToMarkdownTable_def)
  next
    case False
    with r have "int (Max (set (map length (map spec_cells block)))) < 2 \<or>
        int (Max (set (map length (map spec_cells block))))
          - int (Min (set (map length (map spec_cells block)))) > 1"
      by (simp only: accepted_iff) blast
    then show ?thesis
      unfolding tabbedBlockToMarkdownTable_def spec_rows Let_def
      by (simp only: if_True if_False split: if_splits) simp
  qed
qed

lemma normalize_bullet:
  "isBulletGlyph glyph \<Longrightarrow>
     normalizeListPrefix (glyph # rest) = lit ''- '' @ dropWhile isSpace rest"
  by (simp add: normalizeListPrefix_def replace_bullet_glyph_def
      replace_parenthesised_number_def lit_def)

lemma normalize_parenthesised:
  assumes "digits \<noteq> []" and "list_all isDigit digits" and "isSpace space"
  shows "normalizeListPrefix ([0x28] @ digits @ [0x29, space] @ rest)
           = digits @ lit ''. '' @ dropWhile isSpace rest"
proof -
  have n: "\<not> isDigit 0x29" by (simp add: isDigit_def)
  have g: "\<not> isBulletGlyph 0x28" by (simp add: isBulletGlyph_def)
  from assms(2) n have t: "takeWhile isDigit (digits @ 0x29 # space # rest) = digits"
    and d: "dropWhile isDigit (digits @ 0x29 # space # rest) = 0x29 # space # rest"
    by (simp_all add: list_all_iff takeWhile_append2 dropWhile_append2)
  from g have "normalizeListPrefix ([0x28] @ digits @ [0x29, space] @ rest)
      = replace_parenthesised_number (0x28 # digits @ 0x29 # space # rest)"
    by (simp add: normalizeListPrefix_def replace_bullet_glyph_def)
  also have "\<dots> = digits @ lit ''. '' @ dropWhile isSpace rest"
    using assms(1,3) by (simp add: replace_parenthesised_number_def t d)
  finally show ?thesis .
qed

lemma normalize_other:
  assumes "\<not> spec_bulleted s" and "\<not> spec_parenthesised s"
  shows "normalizeListPrefix s = s"
proof (cases s)
  case Nil
  then show ?thesis
    by (simp add: normalizeListPrefix_def replace_bullet_glyph_def replace_parenthesised_number_def)
next
  case (Cons c cs)
  with assms(1) have g: "\<not> isBulletGlyph c"
    by (simp add: spec_bulleted_def)
  then have u: "replace_bullet_glyph s = s"
    by (simp add: replace_bullet_glyph_def Cons)
  have "replace_parenthesised_number s = s"
  proof (rule ccontr)
    assume n: "replace_parenthesised_number s \<noteq> s"
    then have c: "c = 0x28" and t: "takeWhile isDigit cs \<noteq> []"
      by (auto simp add: replace_parenthesised_number_def Cons split: if_splits)
    obtain d e es where dr: "dropWhile isDigit cs = d # e # es"
    proof (cases "dropWhile isDigit cs")
      case Nil
      from n show ?thesis
        by (simp add: replace_parenthesised_number_def Cons Nil split: if_splits)
    next
      case outer: (Cons d r)
      show ?thesis
      proof (cases r)
        case Nil
        from n show ?thesis
          by (simp add: replace_parenthesised_number_def Cons outer Nil split: if_splits)
      next
        case (Cons e es)
        with outer that show ?thesis by blast
      qed
    qed
    from n have de: "d = 0x29" "isSpace e"
      by (auto simp add: replace_parenthesised_number_def Cons dr split: if_splits)
    have "cs = takeWhile isDigit cs @ dropWhile isDigit cs" by simp
    with dr de c Cons have "s = [0x28] @ takeWhile isDigit cs @ [0x29, e] @ es"
      by simp
    moreover have "list_all isDigit (takeWhile isDigit cs)"
      by (auto simp add: list_all_iff dest: set_takeWhileD)
    ultimately have "spec_parenthesised s"
      unfolding spec_parenthesised_def using t de(2) by blast
    with assms(2) show False by contradiction
  qed
  with u show ?thesis by (simp add: normalizeListPrefix_def)
qed

lemma cells_of_line:
  "\<exists>pieces. join [0x09] pieces = line_text line \<and> (\<forall>piece \<in> set pieces. 0x09 \<notin> set piece) \<and>
     spec_cells line = map trim pieces"
  using join_split_char [of "0x09" "line_text line"] split_char_pieces [of _ "0x09" "line_text line"]
  unfolding spec_cells_def by blast

text \<open>
  Claim C2. With the cells of a line being the trimmed pieces between its tabs, a block is
  rendered as a pipe table exactly when it has at least 2 rows, \<open>maxCols\<close> is at least 2
  and \<open>maxCols - minCols\<close> is at most 1. The table is the first row, a row of \<open>maxCols\<close>
  cells \<^verbatim>\<open>---\<close>, then the other rows; every row has exactly \<open>maxCols\<close> cells, the
  missing ones empty, and every vertical bar of a cell has a backslash before it. A
  rejected block gives one line per line: every run of tabs and spaces replaced by one
  space, the white space at the ends removed (there is none at the ends of a line the
  assembler wrote), and the list marker normalised: a leading bullet glyph with the white
  space after it becomes \<^verbatim>\<open>"- "\<close>, a leading \<^verbatim>\<open>(n)\<close> with the white space after it
  becomes \<^verbatim>\<open>"n. "\<close>, any other text stays. The pieces of a line are the strings
  without a tab that joined by tabs give the line, and a cell is its piece without the
  white space at its ends. Cell counts \<open>[3, 3, 2]\<close> are accepted as three columns, the
  short row padded by one empty cell; cell counts \<open>[2, 5]\<close> are rejected.
\<close>

theorem table_acceptance:
  "(spec_accepted block \<longrightarrow>
      tabbedBlockToMarkdownTable block = spec_table block \<and>
      (\<forall>line \<in> set block.
         length (spec_padded_cells (spec_maxCols block) line) = spec_maxCols block \<and>
         list_all pipes_escaped (spec_padded_cells (spec_maxCols block) line))) \<and>
   (\<not> spec_accepted block \<longrightarrow>
      tabbedBlockToMarkdownTable block
        = map (\<lambda>line. normalizeListPrefix (trim (spec_flattened line))) block) \<and>
   (\<not> spec_accepted block \<and> (\<forall>line \<in> set block. trimmed (line_text line)) \<longrightarrow>
      tabbedBlockToMarkdownTable block
        = map (\<lambda>line. normalizeListPrefix (spec_flattened line)) block) \<and>
   (\<exists>pieces. join [0x09] pieces = line_text line \<and> (\<forall>piece \<in> set pieces. 0x09 \<notin> set piece) \<and>
      spec_cells line = map trim pieces) \<and>
   trimmed (trim cell) \<and>
   (\<exists>before after. cell = before @ trim cell @ after \<and>
      list_all isSpace before \<and> list_all isSpace after) \<and>
   (isBulletGlyph glyph \<longrightarrow>
      normalizeListPrefix (glyph # rest) = lit ''- '' @ dropWhile isSpace rest) \<and>
   (digits \<noteq> [] \<and> list_all isDigit digits \<and> isSpace space \<longrightarrow>
      normalizeListPrefix ([0x28] @ digits @ [0x29, space] @ rest)
        = digits @ lit ''. '' @ dropWhile isSpace rest) \<and>
   (\<not> spec_bulleted plain \<and> \<not> spec_parenthesised plain \<longrightarrow> normalizeListPrefix plain = plain) \<and>
   (spec_cellCounts block = [3, 3, 2] \<longrightarrow>
      spec_accepted block \<and> spec_maxCols block = 3 \<and>
      spec_padded_cells (spec_maxCols block) (block ! 2)
        = map escape_pipes (spec_cells (block ! 2)) @ [[]]) \<and>
   (spec_cellCounts block = [2, 5] \<longrightarrow> \<not> spec_accepted block)"
proof -
  have three: "spec_accepted block \<and> spec_maxCols block = 3 \<and>
      spec_padded_cells (spec_maxCols block) (block ! 2)
        = map escape_pipes (spec_cells (block ! 2)) @ [[]]"
    if c: "spec_cellCounts block = [3, 3, 2]"
  proof -
    from c have "length (spec_cellCounts block) = 3" by simp
    then have l: "length block = 3" by (simp add: spec_cellCounts_def)
    from c have "spec_cellCounts block ! 2 = 2" by simp
    with l have s: "length (spec_cells (block ! 2)) = 2" by (simp add: spec_cellCounts_def)
    have mx: "spec_maxCols block = 3" and mn: "spec_minCols block = 2"
      by (simp_all add: spec_maxCols_def spec_minCols_def c)
    from l mx mn s show ?thesis
      by (simp add: spec_accepted_def spec_padded_cells_def)
  qed
  have two: "\<not> spec_accepted block" if c: "spec_cellCounts block = [2, 5]"
    by (simp add: spec_accepted_def spec_maxCols_def spec_minCols_def c)
  have rejected: "tabbedBlockToMarkdownTable block
        = map (\<lambda>line. normalizeListPrefix (trim (spec_flattened line))) block"
    if "\<not> spec_accepted block"
    using rejected_fallback [OF that] by (simp only: fallback_flattened)
  have rejected': "tabbedBlockToMarkdownTable block
        = map (\<lambda>line. normalizeListPrefix (spec_flattened line)) block"
    if "\<not> spec_accepted block" and "\<forall>line \<in> set block. trimmed (line_text line)"
    using rejected_fallback [OF that(1)] fallback_trimmed [OF that(2)] by (simp only:)
  have marker: "normalizeListPrefix ([0x28] @ digits @ [0x29, space] @ rest)
        = digits @ lit ''. '' @ dropWhile isSpace rest"
    if "digits \<noteq> [] \<and> list_all isDigit digits \<and> isSpace space"
    using that normalize_parenthesised by blast
  from three two table_accepted rejected rejected' padded_row(2) padded_row_escaped
    cells_of_line [of line] trimmed_trim [of cell] trim_between [of cell]
    normalize_bullet [of glyph rest] marker normalize_other [of plain]
  show ?thesis by blast
qed

theorem table_acceptance_witness:
  "tabbedBlockToMarkdownTable
     [\<lparr>line_text = lit ''a '' @ [0x09] @ lit '' b|c'' @ [0x09] @ lit ''d'', hasTabs = True, line_fontSize = num 12, breakAfter = False\<rparr>,
      \<lparr>line_text = lit ''e'' @ [0x09] @ lit ''f'' @ [0x09] @ lit ''g'', hasTabs = True, line_fontSize = num 12, breakAfter = False\<rparr>,
      \<lparr>line_text = lit ''h'' @ [0x09] @ lit ''i'', hasTabs = True, line_fontSize = num 12, breakAfter = False\<rparr>]
   = [lit ''| a | b'' @ [0x5C] @ lit ''|c | d |'',
      lit ''| --- | --- | --- |'',
      lit ''| e | f | g |'',
      lit ''| h | i |  |''] \<and>
   tabbedBlockToMarkdownTable
     [\<lparr>line_text = [0x2022] @ lit '' a'' @ [0x09] @ lit ''b'', hasTabs = True, line_fontSize = num 12, breakAfter = False\<rparr>,
      \<lparr>line_text = lit ''(1)  c'' @ [0x09] @ lit ''d'' @ [0x09] @ lit ''e'' @ [0x09, 0x09] @ lit ''g'', hasTabs = True, line_fontSize = num 12, breakAfter = False\<rparr>]
   = [lit ''- a b'', lit ''1. c d e g''] \<and>
   tabbedBlockToMarkdownTable
     [\<lparr>line_text = lit '' x'' @ [0x09], hasTabs = True, line_fontSize = num 12, breakAfter = False\<rparr>]
   = [lit ''x'']"
proof -
  let ?B = "[\<lparr>line_text = lit ''a '' @ [0x09] @ lit '' b|c'' @ [0x09] @ lit ''d'', hasTabs = True, line_fontSize = num 12, breakAfter = False\<rparr>,
      \<lparr>line_text = lit ''e'' @ [0x09] @ lit ''f'' @ [0x09] @ lit ''g'', hasTabs = True, line_fontSize = num 12, breakAfter = False\<rparr>,
      \<lparr>line_text = lit ''h'' @ [0x09] @ lit ''i'', hasTabs = True, line_fontSize = num 12, breakAfter = False\<rparr>]"
  let ?R = "[\<lparr>line_text = [0x2022] @ lit '' a'' @ [0x09] @ lit ''b'', hasTabs = True, line_fontSize = num 12, breakAfter = False\<rparr>,
      \<lparr>line_text = lit ''(1)  c'' @ [0x09] @ lit ''d'' @ [0x09] @ lit ''e'' @ [0x09, 0x09] @ lit ''g'', hasTabs = True, line_fontSize = num 12, breakAfter = False\<rparr>]"
  let ?S = "[\<lparr>line_text = lit '' x'' @ [0x09], hasTabs = True, line_fontSize = num 12, breakAfter = False\<rparr>]"
  have cb: "map spec_cells ?B = [[lit ''a'', lit ''b|c'', lit ''d''], [lit ''e'', lit ''f'', lit ''g''],
      [lit ''h'', lit ''i'']]"
    by (simp add: spec_cells_def split_char_eval lit_def trim_def isSpace_def)
  have cr: "map spec_cells ?R = [[[0x2022] @ lit '' a'', lit ''b''],
      [lit ''(1)  c'', lit ''d'', lit ''e'', [], lit ''g'']]"
    by (simp add: spec_cells_def split_char_eval lit_def trim_def isSpace_def)
  have b: "spec_cellCounts ?B = [3, 3, 2]"
    using cb by (simp add: spec_cellCounts_def)
  have tb: "spec_table ?B = [lit ''| a | b'' @ [0x5C] @ lit ''|c | d |'',
      lit ''| --- | --- | --- |'',
      lit ''| e | f | g |'',
      lit ''| h | i |  |'']"
    using cb b by (simp add: spec_table_def spec_maxCols_def spec_padded_cells_def pipe_row_def lit_def
        numeral_3_eq_3)
  have r: "spec_cellCounts ?R = [2, 5]"
    using cr by (simp add: spec_cellCounts_def)
  have tr: "\<forall>line \<in> set ?R. trimmed (line_text line)"
    by (simp add: trimmed_def lit_def isSpace_def)
  have fl: "map spec_flattened ?R = [[0x2022] @ lit '' a b'', [0x28] @ lit ''1'' @ [0x29, 0x20] @ lit ''c d e g'']"
    by (simp add: spec_flattened_def lit_def)
  have m1: "normalizeListPrefix ([0x2022] @ lit '' a b'') = lit ''- a b''"
    using table_acceptance [of "[]" _ _ "0x2022" "lit '' a b''"]
    by (simp add: isBulletGlyph_def lit_def isSpace_def)
  have m2: "normalizeListPrefix ([0x28] @ lit ''1'' @ [0x29, 0x20] @ lit ''c d e g'') = lit ''1. c d e g''"
    using table_acceptance [of "[]" _ _ _ "lit ''c d e g''" "lit ''1''" "0x20"]
    by (simp add: isDigit_def lit_def isSpace_def)
  have ns: "\<not> spec_accepted ?S"
    by (simp add: spec_accepted_def)
  have fs: "map (\<lambda>line. normalizeListPrefix (trim (spec_flattened line))) ?S = [lit ''x'']"
  proof -
    have "trim (spec_flattened (hd ?S)) = lit ''x''"
      by (simp add: spec_flattened_def lit_def trim_def isSpace_def)
    moreover have "\<not> spec_bulleted (lit ''x'') \<and> \<not> spec_parenthesised (lit ''x'')"
      by (simp add: spec_bulleted_def spec_parenthesised_def lit_def isBulletGlyph_def)
    then have "normalizeListPrefix (lit ''x'') = lit ''x''"
      using table_acceptance [of "[]" _ _ _ _ _ _ "lit ''x''"]
      by blast
    ultimately show ?thesis by simp
  qed
  from table_acceptance [of ?B] b have "tabbedBlockToMarkdownTable ?B = spec_table ?B"
    by blast
  then have 1: "tabbedBlockToMarkdownTable ?B = [lit ''| a | b'' @ [0x5C] @ lit ''|c | d |'',
      lit ''| --- | --- | --- |'',
      lit ''| e | f | g |'',
      lit ''| h | i |  |'']"
    using tb by (rule trans)
  from table_acceptance [of ?R] r tr
  have "tabbedBlockToMarkdownTable ?R = map (\<lambda>line. normalizeListPrefix (spec_flattened line)) ?R"
    by blast
  also have "\<dots> = map normalizeListPrefix (map spec_flattened ?R)"
    by (simp only: map_map o_def)
  also have "\<dots> = [lit ''- a b'', lit ''1. c d e g'']"
    unfolding fl by (simp only: list.map m1 m2)
  finally have 2: "tabbedBlockToMarkdownTable ?R = [lit ''- a b'', lit ''1. c d e g'']" .
  from table_acceptance [of ?S] ns
  have "tabbedBlockToMarkdownTable ?S = map (\<lambda>line. normalizeListPrefix (trim (spec_flattened line))) ?S"
    by blast
  then have 3: "tabbedBlockToMarkdownTable ?S = [lit ''x'']"
    using fs by (rule trans)
  from 1 2 3 show ?thesis by (intro conjI)
qed

subsection \<open>The two-row document\<close>

lemma quantizeY_binary64: "is_binary64 (quantizeY v)"
proof (cases "Math_round (fdiv v (num 2))")
  case (Finite k)
  have "quantizeY v = round64 (k * 2)"
    unfolding quantizeY_def Finite by (simp add: num_2)
  then show ?thesis
    by (cases "round64 (k * 2)") (auto simp add: is_binary64_def dest: round64_is_double)
next
  case PosInf
  show ?thesis unfolding quantizeY_def PosInf by (simp add: num_2 is_binary64_def)
next
  case NegInf
  show ?thesis unfolding quantizeY_def NegInf by (simp add: num_2 is_binary64_def)
next
  case NaN
  show ?thesis unfolding quantizeY_def NaN by (simp add: num_2 is_binary64_def)
qed

lemma js_lt_not_NaN: "js_lt a b \<Longrightarrow> a \<noteq> NaN \<and> b \<noteq> NaN \<and> a \<noteq> b \<and> \<not> js_lt b a"
  by (cases a; cases b) auto

lemma difference_positive:
  assumes "js_lt b a" and "is_binary64 a" and "is_binary64 b"
  shows "js_gt (fsub a b) (Finite 0)" and "\<not> js_gt (fsub b a) (Finite 0)"
    and "Math_abs (fsub a b) = fsub a b"
proof -
  from js_lt_not_NaN [OF assms(1)] have n: "a \<noteq> NaN" "b \<noteq> NaN" "\<not> js_lt a b"
    by simp_all
  show p: "js_gt (fsub a b) (Finite 0)"
    using difference_sign [OF assms(2,3) n(1,2)] assms(1) by simp
  show "\<not> js_gt (fsub b a) (Finite 0)"
    using difference_sign [OF assms(3,2) n(2,1)] n(3) by simp
  from p show "Math_abs (fsub a b) = fsub a b"
    by (cases "fsub a b") (simp_all add: js_gt_def)
qed

lemma ratio_24_18:
  "\<not> js_lt (fdiv (num 24) (Math_max (num 18) (num 1))) (num 1.28)"
  "\<not> js_ge (fdiv (num 24) (Math_max (num 18) (num 1))) (num 1.95)"
  "\<not> js_ge (fdiv (num 24) (Math_max (num 18) (num 1))) (num 1.65)"
  "js_lt (fdiv (num 12) (Math_max (num 18) (num 1))) (num 1.28)"
  by (simp_all add: Math_max_def js_ge_def js_le_def num_eval)

lemma title_is_heading:
  "looksLikeHeading (lit ''Report Title'') (num 24) (num 18) \<and> headingLevel (num 24) (num 18) = 3 \<and>
   \<not> looksLikeHeading (lit ''This is body text.'') (num 12) (num 18)"
proof -
  have "looksLikeHeading (lit ''Report Title'') (num 24) (num 18)"
    unfolding heading_test using ratio_24_18(1)
    by (simp add: lit_def trim_def isSpace_def startsWithBullet_def startsWithNumber_def
        isDigit_def split_whitespace_eval)
  moreover have "headingLevel (num 24) (num 18) = 3"
    unfolding headingLevel_def Let_def using ratio_24_18(2,3) by simp
  moreover have "\<not> looksLikeHeading (lit ''This is body text.'') (num 12) (num 18)"
    unfolding heading_test using ratio_24_18(4) by simp
  ultimately show ?thesis by blast
qed

lemma two_lines_markdown:
  "linesToMarkdown
     [\<lparr>line_text = lit ''Report Title'', hasTabs = False, line_fontSize = num 24, breakAfter = brk\<rparr>,
      \<lparr>line_text = lit ''This is body text.'', hasTabs = False, line_fontSize = num 12,
        breakAfter = False\<rparr>] (num 18)
   = lit ''### Report Title'' @ (if brk then [0x0A, 0x0A] else [0x0A]) @ lit ''This is body text.''"
proof -
  have n: "normalizeListPrefix (trim (lit ''Report Title'')) = lit ''Report Title''"
    "normalizeListPrefix (trim (lit ''This is body text.'')) = lit ''This is body text.''"
    by (simp_all add: normalizeListPrefix_def replace_bullet_glyph_def
        replace_parenthesised_number_def isBulletGlyph_def lit_def trim_def isSpace_def)
  have ne: "lit ''Report Title'' \<noteq> []" "lit ''This is body text.'' \<noteq> []"
    by (simp_all add: lit_def)
  have r: "render_lines
     [\<lparr>line_text = lit ''Report Title'', hasTabs = False, line_fontSize = num 24, breakAfter = brk\<rparr>,
      \<lparr>line_text = lit ''This is body text.'', hasTabs = False, line_fontSize = num 12,
        breakAfter = False\<rparr>] (num 18)
     = [replicate 3 0x23 @ [0x20] @ lit ''Report Title''] @ (if brk then [[]] else [])
       @ [lit ''This is body text.'']"
    using title_is_heading by (simp add: n ne)
  show ?thesis
    unfolding linesToMarkdown_def r
    by (cases brk) (simp_all add: lit_def trim_def isSpace_def isBlank_def numeral_3_eq_3)
qed

lemma single_segment_row:
  "asm_text (assemble_row [segment]) = seg_text segment \<and> \<not> asm_hasTabs (assemble_row [segment])"
  by (simp add: assemble_row_def assemble_segment_def assembly_init_def)

lemma font_sizes:
  "fdiv (fadd (num 0) (num 24)) (num 1) = num 24" "fdiv (fadd (num 0) (num 12)) (num 1) = num 12"
  "fmul (num 24) (num 1.7) = num 40.8" "\<not> js_gt (num 0) (fmul (num 12) (num 1.7))"
  by (simp_all add: js_gt_def num_eval)

lemma two_row_sorted:
  assumes ta: "item_text a = lit ''Report Title''"
    and tb: "item_text b = lit ''This is body text.''"
    and above: "js_lt (quantizeY (item_y b)) (quantizeY (item_y a))"
  shows "sorted_rows (collect_rows [a, b] []) =
      [(quantizeY (item_y a), [item_segment a]), (quantizeY (item_y b), [item_segment b])]"
    and "sorted_rows (collect_rows [b, a] []) =
      [(quantizeY (item_y a), [item_segment a]), (quantizeY (item_y b), [item_segment b])]"
proof -
  have ne: "lit ''Report Title'' \<noteq> []" "lit ''This is body text.'' \<noteq> []"
    by (simp_all add: lit_def)
  from js_lt_not_NaN [OF above] have d: "quantizeY (item_y b) \<noteq> quantizeY (item_y a)"
    by simp
  note s = difference_positive(1,2) [OF above quantizeY_binary64 quantizeY_binary64]
  have ab: "collect_rows [a, b] [] =
      [(quantizeY (item_y a), [item_segment a]), (quantizeY (item_y b), [item_segment b])]"
    using d by (simp add: rowMap_push_def ta tb ne)
  have ba: "collect_rows [b, a] [] =
      [(quantizeY (item_y b), [item_segment b]), (quantizeY (item_y a), [item_segment a])]"
    using d by (simp add: rowMap_push_def ta tb ne)
  show "sorted_rows (collect_rows [a, b] []) =
      [(quantizeY (item_y a), [item_segment a]), (quantizeY (item_y b), [item_segment b])]"
    unfolding ab using s by (simp add: sorted_rows_def js_sort_def)
  show "sorted_rows (collect_rows [b, a] []) =
      [(quantizeY (item_y a), [item_segment a]), (quantizeY (item_y b), [item_segment b])]"
    unfolding ba using s by (simp add: sorted_rows_def js_sort_def)
qed

lemma two_row_lines:
  assumes ta: "item_text a = lit ''Report Title''"
    and fa: "item_fontSize a = num 24"
    and tb: "item_text b = lit ''This is body text.''"
    and fb: "item_fontSize b = num 12"
    and above: "js_lt (quantizeY (item_y b)) (quantizeY (item_y a))"
  shows "extractLinesFromPdfTextContent [a, b] =
     [\<lparr>line_text = lit ''Report Title'', hasTabs = False, line_fontSize = num 24,
        breakAfter = js_gt (fsub (quantizeY (item_y a)) (quantizeY (item_y b))) (num 40.8)\<rparr>,
      \<lparr>line_text = lit ''This is body text.'', hasTabs = False, line_fontSize = num 12,
        breakAfter = False\<rparr>]"
proof -
  have ne: "lit ''Report Title'' \<noteq> []" "lit ''This is body text.'' \<noteq> []"
    by (simp_all add: lit_def)
  have sa: "seg_text (item_segment a) = lit ''Report Title''"
    "seg_fontSize (item_segment a) = num 24"
    and sb: "seg_text (item_segment b) = lit ''This is body text.''"
    "seg_fontSize (item_segment b) = num 12"
    by (simp_all add: item_segment_def Let_def ta fa tb fb)
  have na: "replace_runs 2 (\<lambda>c. c = 0x20) [0x20] (strip_trailing_blanks (lit ''Report Title''))
      = lit ''Report Title''"
    and nb: "replace_runs 2 (\<lambda>c. c = 0x20) [0x20]
        (strip_trailing_blanks (lit ''This is body text.'')) = lit ''This is body text.''"
    by (simp_all add: strip_trailing_blanks_def isBlank_def lit_def)
  note gap = difference_positive(3) [OF above quantizeY_binary64 quantizeY_binary64]
  have one: "num (real (length [x])) = num 1" for x :: PdfTextSegment
    by simp
  show ?thesis
    unfolding extractLinesFromPdfTextContent_def two_row_sorted(1) [OF ta tb above]
    by (simp add: single_segment_row sa sb na nb ne Let_def gap font_sizes del: replace_runs.simps)
qed

lemma two_row_lines_swapped:
  assumes ta: "item_text a = lit ''Report Title''"
    and tb: "item_text b = lit ''This is body text.''"
    and above: "js_lt (quantizeY (item_y b)) (quantizeY (item_y a))"
  shows "extractLinesFromPdfTextContent [b, a] = extractLinesFromPdfTextContent [a, b]"
  by (simp only: extractLinesFromPdfTextContent_def two_row_sorted [OF assms])

lemma two_row_body_font:
  "bodyFontSize_of
     [\<lparr>line_text = lit ''Report Title'', hasTabs = False, line_fontSize = num 24, breakAfter = brk\<rparr>,
      \<lparr>line_text = lit ''This is body text.'', hasTabs = False, line_fontSize = num 12,
        breakAfter = False\<rparr>] = num 18"
proof -
  have "getMedian [num 24, num 12] = num 18"
    by (simp add: getMedian_def sort_ascending_def js_sort_def js_gt_def fsub_def num_eval)
  moreover have "js_or (num 18) (num 12) = num 18"
    by (simp add: js_or_def num_eval)
  ultimately show ?thesis
    by (simp add: bodyFontSize_of_def lit_def Let_def)
qed

lemma two_row_document:
  assumes "numPages pdf = 1"
    and "getTextContent pdf 1 = Some items"
    and "items = [a, b] \<or> items = [b, a]"
    and "item_text a = lit ''Report Title''"
    and "item_fontSize a = num 24"
    and "item_text b = lit ''This is body text.''"
    and "item_fontSize b = num 12"
    and "js_lt (quantizeY (item_y b)) (quantizeY (item_y a))"
  shows "pdfToMarkdown pdf =
     (Inr (lit ''### Report Title''
           @ (if js_gt (fsub (quantizeY (item_y a)) (quantizeY (item_y b))) (num 40.8)
              then [0x0A, 0x0A] else [0x0A])
           @ lit ''This is body text.''), [1])"
proof -
  define brk where "brk \<longleftrightarrow> js_gt (fsub (quantizeY (item_y a)) (quantizeY (item_y b))) (num 40.8)"
  define lines where "lines =
     [\<lparr>line_text = lit ''Report Title'', hasTabs = False, line_fontSize = num 24,
        breakAfter = brk\<rparr>,
      \<lparr>line_text = lit ''This is body text.'', hasTabs = False, line_fontSize = num 12,
        breakAfter = False\<rparr>]"
  define out where "out = lit ''### Report Title'' @ (if brk then [0x0A, 0x0A] else [0x0A])
      @ lit ''This is body text.''"
  have "extractLinesFromPdfTextContent [a, b] = lines"
    unfolding lines_def brk_def using assms(4-8) by (rule two_row_lines)
  with assms(3) have "extractLinesFromPdfTextContent items = lines"
    using two_row_lines_swapped [OF assms(4,6,8)] by auto
  moreover from assms(2) have "getTextContent pdf (Suc 0) = Some items"
    by simp
  ultimately have pages: "read_pages pdf [1..<Suc (numPages pdf)] [] [] = (Inr [lines], [1])"
    by (simp add: assms(1))
  have some: "lines \<noteq> []"
    by (simp add: lines_def)
  have font: "bodyFontSize_of lines = num 18"
    unfolding lines_def by (rule two_row_body_font)
  have md: "linesToMarkdown lines (num 18) = out"
    unfolding lines_def out_def by (rule two_lines_markdown)
  have tr: "trim out = out" and ne: "out \<noteq> []"
    unfolding out_def by (cases brk; simp add: lit_def trim_def isSpace_def)+
  have "pdfToMarkdown pdf = (Inr out, [1])"
    unfolding pdfToMarkdown_def pages
    by (simp add: assms(1) MAX_PDF_PAGES_def some font md ne tr)
  then show ?thesis
    by (simp only: out_def brk_def)
qed

lemma two_row_items:
  "item_text \<lparr>str = lit ''Report Title'', transform = [num 24, num 0, num 0, num 24, num 72, num 700], width = num 150, height = num 24\<rparr> = lit ''Report Title''"
  "item_fontSize \<lparr>str = lit ''Report Title'', transform = [num 24, num 0, num 0, num 24, num 72, num 700], width = num 150, height = num 24\<rparr> = num 24"
  "item_y \<lparr>str = lit ''Report Title'', transform = [num 24, num 0, num 0, num 24, num 72, num 700], width = num 150, height = num 24\<rparr> = num 700"
  "item_text \<lparr>str = lit ''This is body text.'', transform = [num 12, num 0, num 0, num 12, num 72, num 680], width = num 100, height = num 12\<rparr> = lit ''This is body text.''"
  "item_fontSize \<lparr>str = lit ''This is body text.'', transform = [num 12, num 0, num 0, num 12, num 72, num 680], width = num 100, height = num 12\<rparr> = num 12"
  "item_y \<lparr>str = lit ''This is body text.'', transform = [num 12, num 0, num 0, num 12, num 72, num 680], width = num 100, height = num 12\<rparr> = num 680"
  "item_text \<lparr>str = lit ''This is body text.'', transform = [num 12, num 0, num 0, num 12, num 72, num 600], width = num 100, height = num 12\<rparr> = lit ''This is body text.''"
  "item_fontSize \<lparr>str = lit ''This is body text.'', transform = [num 12, num 0, num 0, num 12, num 72, num 600], width = num 100, height = num 12\<rparr> = num 12"
  "item_y \<lparr>str = lit ''This is body text.'', transform = [num 12, num 0, num 0, num 12, num 72, num 600], width = num 100, height = num 12\<rparr> = num 600"
  "quantizeY (num 700) = num 700" "quantizeY (num 680) = num 680" "quantizeY (num 600) = num 600"
  "js_lt (num 680) (num 700)" "js_lt (num 600) (num 700)"
  "\<not> js_gt (fsub (num 700) (num 680)) (num 40.8)" "js_gt (fsub (num 700) (num 600)) (num 40.8)"
  by (simp_all add: item_text_def item_fontSize_def item_y_def transform_at_def lit_def trim_def
      isSpace_def quantizeY_def js_or_def js_gt_def fsub_def num_eval)

text \<open>
  Claim C1, as amended. A one-page document has two text runs, in either order: the run
  \<^verbatim>\<open>Report Title\<close> of font size 24, and below it, in another row, the run
  \<^verbatim>\<open>This is body text.\<close> of font size 12. No line has 20 characters, so the body
  font size is the median of both font sizes, 18; the title is a heading (ratio 4/3) of
  level 3; the engine emits \<^verbatim>\<open>### Report Title\<close>, then a blank line when the rows
  are more than 40.8 apart (1.7 times the title's font size) and a plain line break
  otherwise, then \<^verbatim>\<open>This is body text.\<close>; it has asked for page 1 only.
\<close>

theorem two_row_scenario:
  assumes "numPages pdf = 1"
    and "getTextContent pdf 1 = Some items"
    and "items = [a, b] \<or> items = [b, a]"
    and "item_text a = lit ''Report Title''"
    and "item_fontSize a = num 24"
    and "item_text b = lit ''This is body text.''"
    and "item_fontSize b = num 12"
    and "js_lt (quantizeY (item_y b)) (quantizeY (item_y a))"
  shows "bodyFontSize_of (extractLinesFromPdfTextContent items) = num 18 \<and>
     looksLikeHeading (lit ''Report Title'') (num 24) (num 18) \<and>
     headingLevel (num 24) (num 18) = 3 \<and>
     pdfToMarkdown pdf =
       (Inr (lit ''### Report Title''
             @ (if js_gt (fsub (quantizeY (item_y a)) (quantizeY (item_y b))) (num 40.8)
                then [0x0A, 0x0A] else [0x0A])
             @ lit ''This is body text.''), [1])"
proof -
  have "bodyFontSize_of (extractLinesFromPdfTextContent [a, b]) = num 18"
    using assms(4-8) by (simp only: two_row_lines two_row_body_font)
  with assms(3) have "bodyFontSize_of (extractLinesFromPdfTextContent items) = num 18"
    using two_row_lines_swapped [OF assms(4,6,8)] by auto
  moreover note title_is_heading two_row_document [OF assms]
  ultimately show ?thesis by blast
qed

theorem two_row_scenario_witness:
  "pdfToMarkdown
     \<lparr>numPages = 1,
      getTextContent = (\<lambda>pageNo. if pageNo = 1
         then Some [\<lparr>str = lit ''Report Title'', transform = [num 24, num 0, num 0, num 24, num 72, num 700], width = num 150, height = num 24\<rparr>,
                    \<lparr>str = lit ''This is body text.'', transform = [num 12, num 0, num 0, num 12, num 72, num 680], width = num 100, height = num 12\<rparr>]
         else None)\<rparr>
   = (Inr (lit ''### Report Title'' @ [0x0A] @ lit ''This is body text.''), [1])"
proof -
  let ?a = "\<lparr>str = lit ''Report Title'', transform = [num 24, num 0, num 0, num 24, num 72, num 700], width = num 150, height = num 24\<rparr>"
  let ?b = "\<lparr>str = lit ''This is body text.'', transform = [num 12, num 0, num 0, num 12, num 72, num 680], width = num 100, height = num 12\<rparr>"
  have "js_lt (quantizeY (item_y ?b)) (quantizeY (item_y ?a))"
    by (simp only: two_row_items)
  from two_row_scenario [of "\<lparr>numPages = 1,
      getTextContent = (\<lambda>pageNo. if pageNo = 1
         then Some [\<lparr>str = lit ''Report Title'', transform = [num 24, num 0, num 0, num 24, num 72, num 700], width = num 150, height = num 24\<rparr>,
                    \<lparr>str = lit ''This is body text.'', transform = [num 12, num 0, num 0, num 12, num 72, num 680], width = num 100, height = num 12\<rparr>]
         else None)\<rparr>" "[?a, ?b]" ?a ?b, OF _ _ _ two_row_items(1,2,4,5) this]
  show ?thesis
    using two_row_items(15) by (simp add: two_row_items)
qed

text \<open>
  Claim C1 as it was stated expects a body font size of 12 and the heading
  \<^verbatim>\<open># Report Title\<close>. With the rows at \<open>y = 700\<close> and \<open>y = 600\<close> the engine computes
  the body font size 18 and emits \<^verbatim>\<open>### Report Title\<close>, a blank line and the body
  text.
\<close>

theorem two_row_scenario_counterexample:
  "pdfToMarkdown
     \<lparr>numPages = 1,
      getTextContent = (\<lambda>pageNo. if pageNo = 1
         then Some [\<lparr>str = lit ''Report Title'', transform = [num 24, num 0, num 0, num 24, num 72, num 700], width = num 150, height = num 24\<rparr>,
                    \<lparr>str = lit ''This is body text.'', transform = [num 12, num 0, num 0, num 12, num 72, num 600], width = num 100, height = num 12\<rparr>]
         else None)\<rparr>
   = (Inr (lit ''### Report Title'' @ [0x0A, 0x0A] @ lit ''This is body text.''), [1]) \<and>
   fst (pdfToMarkdown
     \<lparr>numPages = 1,
      getTextContent = (\<lambda>pageNo. if pageNo = 1
         then Some [\<lparr>str = lit ''Report Title'', transform = [num 24, num 0, num 0, num 24, num 72, num 700], width = num 150, height = num 24\<rparr>,
                    \<lparr>str = lit ''This is body text.'', transform = [num 12, num 0, num 0, num 12, num 72, num 600], width = num 100, height = num 12\<rparr>]
         else None)\<rparr>)
   \<noteq> Inr (lit ''# Report Title'' @ [0x0A, 0x0A] @ lit ''This is body text.'') \<and>
   bodyFontSize_of (extractLinesFromPdfTextContent
       [\<lparr>str = lit ''Report Title'', transform = [num 24, num 0, num 0, num 24, num 72, num 700], width = num 150, height = num 24\<rparr>,
        \<lparr>str = lit ''This is body text.'', transform = [num 12, num 0, num 0, num 12, num 72, num 600], width = num 100, height = num 12\<rparr>]) = num 18"
proof -
  let ?a = "\<lparr>str = lit ''Report Title'', transform = [num 24, num 0, num 0, num 24, num 72, num 700], width = num 150, height = num 24\<rparr>"
  let ?b = "\<lparr>str = lit ''This is body text.'', transform = [num 12, num 0, num 0, num 12, num 72, num 600], width = num 100, height = num 12\<rparr>"
  have above: "js_lt (quantizeY (item_y ?b)) (quantizeY (item_y ?a))"
    by (simp only: two_row_items)
  have "pdfToMarkdown
     \<lparr>numPages = 1,
      getTextContent = (\<lambda>pageNo. if pageNo = 1
         then Some [\<lparr>str = lit ''Report Title'', transform = [num 24, num 0, num 0, num 24, num 72, num 700], width = num 150, height = num 24\<rparr>,
                    \<lparr>str = lit ''This is body text.'', transform = [num 12, num 0, num 0, num 12, num 72, num 600], width = num 100, height = num 12\<rparr>]
         else None)\<rparr>
   = (Inr (lit ''### Report Title'' @ [0x0A, 0x0A] @ lit ''This is body text.''), [1])"
    using two_row_document [of "\<lparr>numPages = 1,
      getTextContent = (\<lambda>pageNo. if pageNo = 1
         then Some [\<lparr>str = lit ''Report Title'', transform = [num 24, num 0, num 0, num 24, num 72, num 700], width = num 150, height = num 24\<rparr>,
                    \<lparr>str = lit ''This is body text.'', transform = [num 12, num 0, num 0, num 12, num 72, num 600], width = num 100, height = num 12\<rparr>]
         else None)\<rparr>" "[?a, ?b]" ?a ?b, OF _ _ _ two_row_items(1,2,7,8) above]
      two_row_items(16)
    by (simp add: two_row_items)
  moreover have "lit ''### Report Title'' @ [0x0A, 0x0A] @ lit ''This is body text.''
      \<noteq> lit ''# Report Title'' @ [0x0A, 0x0A] @ lit ''This is body text.''"
    by (simp add: lit_def)
  moreover have "bodyFontSize_of (extractLinesFromPdfTextContent [?a, ?b]) = num 18"
    using two_row_items(1,2,7,8) above by (simp only: two_row_lines two_row_body_font)
  ultimately show ?thesis by simp
qed

end
